theory Spec2Isabelle
  imports Main "HOL-Library.Word"
begin

section \<open>Memory model of single-linked-list.h\<close>

text \<open>
  The container is a chain of heap nodes hanging off a sentinel \<open>head_\<close> that is a member
  of the container object. Several properties are about aliasing (independent storage of
  a copy, positions that belong to a given container), so the model keeps an explicit store:
  \<^item> \<open>cells\<close>: the heap nodes created by \<open>new Node\<close>, by address;
  \<^item> \<open>lists\<close>: the live container objects, by object identity;
  \<^item> \<open>free_list\<close>: the addresses \<open>operator new\<close> will hand out next, in order; it is empty
    when memory is exhausted (\<open>std::bad_alloc\<close>), and \<open>delete\<close> returns an address to
    its front;
  \<^item> \<open>next_obj\<close>: the identity the next constructed container object gets.
  Addresses and \<open>size_t\<close> are 64 bit words; address \<open>0\<close> is never a node (it is the null
  pointer of the machine, written \<open>Null\<close> in the pointer type below).
\<close>

type_synonym addr = "64 word"
type_synonym cid = nat

text \<open>A \<open>Node*\<close>: null, the address of the sentinel \<open>head_\<close> of a container, or a heap node.\<close>

datatype ptr = Null | Sentinel cid | Cell addr

text \<open>\<open>struct Node { Type value; Node* next_node; }\<close>\<close>

record 'a Node =
  val :: 'a
  next_node :: ptr

text \<open>
  \<open>class SingleLinkedList { Node head_; size_t size_; }\<close>. Of the sentinel only the link is
  kept: no member function of the container reads or writes \<open>head_.value\<close>, which is
  default-initialised; a read of it through an iterator is the error \<open>IndeterminateRead\<close>
  below. The field \<open>m_size\<close> is \<open>size_\<close>.
\<close>

record SingleLinkedList =
  head_next_node :: ptr
  m_size :: "64 word"

record 'a world =
  lists :: "cid \<Rightarrow> SingleLinkedList option"
  cells :: "addr \<Rightarrow> 'a Node option"
  free_list :: "addr list"
  next_obj :: cid

text \<open>
  What can go wrong: \<open>new\<close> throws (\<open>BadAlloc\<close>), or the program has undefined behaviour:
  a null pointer is dereferenced, a destroyed node or container is accessed, something
  that is not a live heap node is deleted, the default-initialised value of the sentinel
  is read, memory outside the array of an initializer list is read, or the \<open>assert\<close> of
  the copy constructor fails.
\<close>

datatype error =
  BadAlloc | NullDeref | Dangling | BadDelete | IndeterminateRead | OutOfBounds | AssertFailed

definition bindE :: "error + 'x \<Rightarrow> ('x \<Rightarrow> error + 'y) \<Rightarrow> error + 'y" where
  "bindE m f = (case m of Inl e \<Rightarrow> Inl e | Inr x \<Rightarrow> f x)"

text \<open>
  Functions with a loop that need not end (\<open>Clear\<close> and everything that walks a chain)
  return an option on top: \<open>None\<close> is a run that never returns.
\<close>

definition bindP :: "(error + 'x) option \<Rightarrow> ('x \<Rightarrow> (error + 'y) option) \<Rightarrow> (error + 'y) option" where
  "bindP m f = (case m of None \<Rightarrow> None | Some (Inl e) \<Rightarrow> Some (Inl e) | Some (Inr x) \<Rightarrow> f x)"

definition init_world :: "addr list \<Rightarrow> 'a world" where
  "init_world fl = \<lparr>lists = (\<lambda>c. None), cells = (\<lambda>a. None), free_list = fl, next_obj = 0\<rparr>"

subsection \<open>Access to objects and nodes\<close>

definition get_list :: "cid \<Rightarrow> 'a world \<Rightarrow> error + SingleLinkedList" where
  "get_list c w = (case lists w c of None \<Rightarrow> Inl Dangling | Some l \<Rightarrow> Inr l)"

definition put_list :: "cid \<Rightarrow> SingleLinkedList \<Rightarrow> 'a world \<Rightarrow> 'a world" where
  "put_list c l w = w\<lparr>lists := (lists w)(c \<mapsto> l)\<rparr>"

definition get_node :: "addr \<Rightarrow> 'a world \<Rightarrow> error + 'a Node" where
  "get_node a w = (case cells w a of None \<Rightarrow> Inl Dangling | Some n \<Rightarrow> Inr n)"

text \<open>\<open>p->next_node\<close> as an rvalue.\<close>

definition read_next :: "ptr \<Rightarrow> 'a world \<Rightarrow> error + ptr" where
  "read_next p w =
     (case p of
        Null \<Rightarrow> Inl NullDeref
      | Sentinel c \<Rightarrow> bindE (get_list c w) (\<lambda>l. Inr (head_next_node l))
      | Cell a \<Rightarrow> bindE (get_node a w) (\<lambda>n. Inr (next_node n)))"

text \<open>\<open>p->next_node = q\<close>\<close>

definition write_next :: "ptr \<Rightarrow> ptr \<Rightarrow> 'a world \<Rightarrow> error + 'a world" where
  "write_next p q w =
     (case p of
        Null \<Rightarrow> Inl NullDeref
      | Sentinel c \<Rightarrow> bindE (get_list c w) (\<lambda>l. Inr (put_list c (l\<lparr>head_next_node := q\<rparr>) w))
      | Cell a \<Rightarrow> bindE (get_node a w)
          (\<lambda>n. Inr (w\<lparr>cells := (cells w)(a \<mapsto> n\<lparr>next_node := q\<rparr>)\<rparr>)))"

text \<open>\<open>p->value\<close> as an rvalue.\<close>

definition read_value :: "ptr \<Rightarrow> 'a world \<Rightarrow> error + 'a" where
  "read_value p w =
     (case p of
        Null \<Rightarrow> Inl NullDeref
      | Sentinel c \<Rightarrow> bindE (get_list c w) (\<lambda>l. Inl IndeterminateRead)
      | Cell a \<Rightarrow> bindE (get_node a w) (\<lambda>n. Inr (val n)))"

text \<open>
  \<open>new Node(value, next)\<close>: the allocation comes first and throws when no memory is left;
  the caller evaluates the constructor arguments between \<open>allocate\<close> and \<open>construct\<close>.
\<close>

definition allocate :: "'a world \<Rightarrow> error + addr \<times> 'a world" where
  "allocate w =
     (case free_list w of [] \<Rightarrow> Inl BadAlloc | a # fl \<Rightarrow> Inr (a, w\<lparr>free_list := fl\<rparr>))"

definition construct :: "addr \<Rightarrow> 'a \<Rightarrow> ptr \<Rightarrow> 'a world \<Rightarrow> 'a world" where
  "construct a v nx w = w\<lparr>cells := (cells w)(a \<mapsto> \<lparr>val = v, next_node = nx\<rparr>)\<rparr>"

text \<open>\<open>delete p\<close>: nothing for a null pointer, undefined for anything but a live heap node.\<close>

definition delete_Node :: "ptr \<Rightarrow> 'a world \<Rightarrow> error + 'a world" where
  "delete_Node p w =
     (case p of
        Null \<Rightarrow> Inr w
      | Sentinel c \<Rightarrow> Inl BadDelete
      | Cell a \<Rightarrow>
          (case cells w a of
             None \<Rightarrow> Inl BadDelete
           | Some n \<Rightarrow> Inr (w\<lparr>cells := (cells w)(a := None), free_list := a # free_list w\<rparr>)))"

section \<open>BasicIterator\<close>

text \<open>
  \<open>BasicIterator<Type>\<close> (\<open>Iterator\<close>) and \<open>BasicIterator<const Type>\<close> (\<open>ConstIterator\<close>) are
  the two instances of one template; both hold a single \<open>Node* node_\<close> (\<open>it_node\<close> here).
\<close>

datatype BasicIterator = Iterator ptr | ConstIterator ptr

fun it_node :: "BasicIterator \<Rightarrow> ptr" where
  "it_node (Iterator p) = p"
| "it_node (ConstIterator p) = p"

text \<open>The same flavour at another node: what \<open>node_ = ...\<close> leaves and \<open>BasicIterator(node)\<close> builds.\<close>

fun at_node :: "BasicIterator \<Rightarrow> ptr \<Rightarrow> BasicIterator" where
  "at_node (Iterator p) q = Iterator q"
| "at_node (ConstIterator p) q = ConstIterator q"

text \<open>The converting constructor \<open>BasicIterator(const BasicIterator<Type>& other)\<close>.\<close>

definition to_const :: "BasicIterator \<Rightarrow> BasicIterator" where
  "to_const it = ConstIterator (it_node it)"

definition operator_eq_it :: "BasicIterator \<Rightarrow> BasicIterator \<Rightarrow> bool" where
  "operator_eq_it lhs rhs = (it_node rhs = it_node lhs)"

definition operator_ne_it :: "BasicIterator \<Rightarrow> BasicIterator \<Rightarrow> bool" where
  "operator_ne_it lhs rhs = (it_node rhs \<noteq> it_node lhs)"

text \<open>\<open>operator++()\<close>: the iterator afterwards.\<close>

definition pre_increment :: "BasicIterator \<Rightarrow> 'a world \<Rightarrow> error + BasicIterator" where
  "pre_increment it w = bindE (read_next (it_node it) w) (\<lambda>nx. Inr (at_node it nx))"

text \<open>\<open>operator++(int)\<close>: the returned old position and the iterator afterwards.\<close>

definition post_increment :: "BasicIterator \<Rightarrow> 'a world \<Rightarrow> error + BasicIterator \<times> BasicIterator" where
  "post_increment it w =
     (let answer = at_node it (it_node it)
      in bindE (read_next (it_node it) w) (\<lambda>nx. Inr (answer, at_node it nx)))"

text \<open>\<open>operator*()\<close>, read as a value.\<close>

definition operator_star :: "BasicIterator \<Rightarrow> 'a world \<Rightarrow> error + 'a" where
  "operator_star it w = read_value (it_node it) w"

text \<open>
  \<open>operator->()\<close> returns a \<open>Type*\<close>: null, or the address of the \<open>value\<close> member of the
  node the iterator holds. \<open>read_value_ptr\<close> is a read through such a pointer.
\<close>

datatype value_ptr = NullValue | ValueOf ptr

definition operator_arrow :: "BasicIterator \<Rightarrow> value_ptr" where
  "operator_arrow it = (if it_node it \<noteq> Null then ValueOf (it_node it) else NullValue)"

definition read_value_ptr :: "value_ptr \<Rightarrow> 'a world \<Rightarrow> error + 'a" where
  "read_value_ptr vp w = (case vp of NullValue \<Rightarrow> Inl NullDeref | ValueOf p \<Rightarrow> read_value p w)"

section \<open>SingleLinkedList\<close>

text \<open>\<open>SingleLinkedList()\<close>: a new object with the default member initialisers.\<close>

definition default_ctor :: "'a world \<Rightarrow> cid \<times> 'a world" where
  "default_ctor w =
     (next_obj w,
      w\<lparr>lists := (lists w)(next_obj w \<mapsto> \<lparr>head_next_node = Null, m_size = 0\<rparr>),
        next_obj := Suc (next_obj w)\<rparr>)"

definition before_begin :: "cid \<Rightarrow> BasicIterator" where
  "before_begin this = Iterator (Sentinel this)"

definition cbefore_begin :: "cid \<Rightarrow> BasicIterator" where
  "cbefore_begin this = ConstIterator (Sentinel this)"

definition begin_it :: "cid \<Rightarrow> 'a world \<Rightarrow> error + BasicIterator" where
  "begin_it this w = bindE (get_list this w) (\<lambda>l. Inr (Iterator (head_next_node l)))"

definition end_it :: "cid \<Rightarrow> BasicIterator" where
  "end_it this = Iterator Null"

definition cbegin :: "cid \<Rightarrow> 'a world \<Rightarrow> error + BasicIterator" where
  "cbegin this w = bindE (get_list this w) (\<lambda>l. Inr (ConstIterator (head_next_node l)))"

definition cend :: "cid \<Rightarrow> BasicIterator" where
  "cend this = ConstIterator Null"

definition PushFront :: "cid \<Rightarrow> 'a \<Rightarrow> 'a world \<Rightarrow> error + 'a world" where
  "PushFront this v w =
     bindE (allocate w) (\<lambda>(a, w1).
     bindE (get_list this w1) (\<lambda>l.
     let w2 = put_list this (l\<lparr>head_next_node := Cell a\<rparr>) (construct a v (head_next_node l) w1)
     in bindE (get_list this w2) (\<lambda>l2. Inr (put_list this (l2\<lparr>m_size := m_size l2 + 1\<rparr>) w2))))"

definition PopFront :: "cid \<Rightarrow> 'a world \<Rightarrow> error + 'a world" where
  "PopFront this w =
     bindE (get_list this w) (\<lambda>l.
     if head_next_node l \<noteq> Null then
       (let temp = head_next_node l
        in bindE (read_next temp w) (\<lambda>nx.
           bindE (delete_Node temp (put_list this (l\<lparr>head_next_node := nx\<rparr>) w)) (\<lambda>w2.
           bindE (get_list this w2) (\<lambda>l2. Inr (put_list this (l2\<lparr>m_size := m_size l2 - 1\<rparr>) w2)))))
     else Inr w)"

partial_function (option) Clear :: "cid \<Rightarrow> 'a world \<Rightarrow> (error + 'a world) option" where
  "Clear this w =
     (case get_list this w of
        Inl e \<Rightarrow> Some (Inl e)
      | Inr l \<Rightarrow>
          if m_size l \<noteq> 0 then
            (case PopFront this w of Inl e \<Rightarrow> Some (Inl e) | Inr w' \<Rightarrow> Clear this w')
          else Some (Inr w))"

text \<open>\<open>~SingleLinkedList()\<close>, after which the object is gone.\<close>

definition destructor :: "cid \<Rightarrow> 'a world \<Rightarrow> (error + 'a world) option" where
  "destructor this w = bindP (Clear this w) (\<lambda>w'. Some (Inr (w'\<lparr>lists := (lists w')(this := None)\<rparr>)))"

definition InsertAfter :: "cid \<Rightarrow> BasicIterator \<Rightarrow> 'a \<Rightarrow> 'a world \<Rightarrow> error + BasicIterator \<times> 'a world" where
  "InsertAfter this pos v w =
     (if operator_eq_it pos (before_begin this) then
        bindE (PushFront this v w) (\<lambda>w'. bindE (begin_it this w') (\<lambda>it. Inr (it, w')))
      else
        bindE (allocate w) (\<lambda>(newtmp, w1).
        bindE (read_next (it_node pos) w1) (\<lambda>nx.
        bindE (write_next (it_node pos) (Cell newtmp) (construct newtmp v nx w1)) (\<lambda>w2.
        bindE (get_list this w2) (\<lambda>l.
          Inr (Iterator (Cell newtmp), put_list this (l\<lparr>m_size := m_size l + 1\<rparr>) w2))))))"

definition EraseAfter :: "cid \<Rightarrow> BasicIterator \<Rightarrow> 'a world \<Rightarrow> error + BasicIterator \<times> 'a world" where
  "EraseAfter this pos w =
     (if operator_eq_it pos (before_begin this) then
        bindE (PopFront this w) (\<lambda>w'. bindE (begin_it this w') (\<lambda>it. Inr (it, w')))
      else
        bindE (read_next (it_node pos) w) (\<lambda>n1.
        bindE (read_next n1 w) (\<lambda>new_next.
        bindE (read_next (it_node pos) w) (\<lambda>doomed.
        bindE (delete_Node doomed w) (\<lambda>w1.
        bindE (write_next (it_node pos) new_next w1) (\<lambda>w2.
        bindE (get_list this w2) (\<lambda>l.
        let w3 = put_list this (l\<lparr>m_size := m_size l - 1\<rparr>) w2
        in bindE (read_next (it_node pos) w3) (\<lambda>r. Inr (Iterator r, w3)))))))))"

text \<open>
  A \<open>std::initializer_list<Type>\<close>: the address of its array (null for an empty list, as
  the default constructor of the standard libraries leaves it), the elements of the
  array, and \<open>sizeof(Type)\<close>, the distance in bytes from one element to the next.
  \<open>begin()\<close> and \<open>end()\<close> are addresses, and so is every \<open>const Type*\<close> computed from them:
  64 bit words, pointer arithmetic wrapping and pointer comparison unsigned, as the machine
  has them. \<open>il_deref\<close> is \<open>*p\<close>: the element at address \<open>p\<close>, if \<open>p\<close> is the address of one.
\<close>

record 'a initializer_list =
  il_array :: addr
  il_elems :: "'a list"
  elem_size :: "64 word"

definition il_begin :: "'a initializer_list \<Rightarrow> addr" where
  "il_begin values = il_array values"

definition il_end :: "'a initializer_list \<Rightarrow> addr" where
  "il_end values = il_array values + of_nat (length (il_elems values)) * elem_size values"

definition il_deref :: "'a initializer_list \<Rightarrow> addr \<Rightarrow> error + 'a" where
  "il_deref values p =
     (case List.find (\<lambda>k. il_array values + of_nat k * elem_size values = p)
             [0 ..< length (il_elems values)] of
        None \<Rightarrow> Inl OutOfBounds
      | Some k \<Rightarrow> Inr (il_elems values ! k))"

text \<open>
  \<open>SingleLinkedList(std::initializer_list<Type> values)\<close>: the loop
  \<open>for (auto it = values.end() - 1; it >= values.begin(); --it) PushFront(*it);\<close>
  from the current value of \<open>it\<close>.
\<close>

partial_function (option) init_loop ::
  "cid \<Rightarrow> 'a initializer_list \<Rightarrow> addr \<Rightarrow> 'a world \<Rightarrow> (error + 'a world) option" where
  "init_loop this values it w =
     (if il_begin values \<le> it then
        (case il_deref values it of
           Inl e \<Rightarrow> Some (Inl e)
         | Inr x \<Rightarrow>
             (case PushFront this x w of
                Inl e \<Rightarrow> Some (Inl e)
              | Inr w' \<Rightarrow> init_loop this values (it - elem_size values) w'))
      else Some (Inr w))"

definition init_list_ctor :: "'a initializer_list \<Rightarrow> 'a world \<Rightarrow> (error + cid \<times> 'a world) option" where
  "init_list_ctor values w =
     (let (this, w0) = default_ctor w
      in bindP (init_loop this values (il_end values - elem_size values) w0)
           (\<lambda>w'. Some (Inr (this, w'))))"

definition swap_member :: "cid \<Rightarrow> cid \<Rightarrow> 'a world \<Rightarrow> error + 'a world" where
  "swap_member this other w =
     bindE (get_list this w) (\<lambda>l.
     let temp_pt = head_next_node l; temp_size = m_size l
     in bindE (get_list other w) (\<lambda>lo.
        let w1 = put_list this (l\<lparr>head_next_node := head_next_node lo\<rparr>) w
        in bindE (get_list this w1) (\<lambda>l1.
        bindE (get_list other w1) (\<lambda>lo1.
        let w2 = put_list this (l1\<lparr>m_size := m_size lo1\<rparr>) w1
        in bindE (get_list other w2) (\<lambda>lo2.
        let w3 = put_list other (lo2\<lparr>m_size := temp_size\<rparr>) w2
        in bindE (get_list other w3) (\<lambda>lo3.
           Inr (put_list other (lo3\<lparr>head_next_node := temp_pt\<rparr>) w3)))))))"

text \<open>
  The range-based \<open>for (auto it : src) dst.PushFront(it);\<close> of the copy constructor, from
  the current position \<open>cur\<close> of the hidden iterator to \<open>stop\<close>, which is \<open>src.end()\<close>.
\<close>

partial_function (option) push_all ::
  "cid \<Rightarrow> BasicIterator \<Rightarrow> BasicIterator \<Rightarrow> 'a world \<Rightarrow> (error + 'a world) option" where
  "push_all dst cur stop w =
     (if operator_ne_it cur stop then
        (case operator_star cur w of
           Inl e \<Rightarrow> Some (Inl e)
         | Inr it \<Rightarrow>
             (case PushFront dst it w of
                Inl e \<Rightarrow> Some (Inl e)
              | Inr w1 \<Rightarrow>
                  (case pre_increment cur w1 of
                     Inl e \<Rightarrow> Some (Inl e)
                   | Inr cur' \<Rightarrow> push_all dst cur' stop w1)))
      else Some (Inr w))"

definition copy_ctor :: "cid \<Rightarrow> 'a world \<Rightarrow> (error + cid \<times> 'a world) option" where
  "copy_ctor other w =
     (let (this, w0) = default_ctor w
      in bindP (Some (get_list this w0)) (\<lambda>l.
         if \<not> (m_size l = 0 \<and> head_next_node l = Null) then Some (Inl AssertFailed)
         else
           let (tmp1, w1) = default_ctor w0
           in bindP (Some (cbegin other w1)) (\<lambda>b.
              bindP (push_all tmp1 b (cend other) w1) (\<lambda>w2.
              let (tmp, w3) = default_ctor w2
              in bindP (Some (begin_it tmp1 w3)) (\<lambda>b1.
                 bindP (push_all tmp b1 (end_it tmp1) w3) (\<lambda>w4.
                 bindP (Some (swap_member this tmp w4)) (\<lambda>w5.
                 bindP (destructor tmp w5) (\<lambda>w6.
                 bindP (destructor tmp1 w6) (\<lambda>w7. Some (Inr (this, w7)))))))))))"

text \<open>\<open>operator=\<close>; the reference it returns is \<open>this\<close>.\<close>

definition copy_assign :: "cid \<Rightarrow> cid \<Rightarrow> 'a world \<Rightarrow> (error + 'a world) option" where
  "copy_assign this rhs w =
     (if this \<noteq> rhs then
        bindP (copy_ctor rhs w) (\<lambda>(tmp, w1).
        bindP (Some (swap_member this tmp w1)) (\<lambda>w2. destructor tmp w2))
      else Some (Inr w))"

definition GetSize :: "cid \<Rightarrow> 'a world \<Rightarrow> error + 64 word" where
  "GetSize this w = bindE (get_list this w) (\<lambda>l. Inr (m_size l))"

definition IsEmpty :: "cid \<Rightarrow> 'a world \<Rightarrow> error + bool" where
  "IsEmpty this w = bindE (get_list this w) (\<lambda>l. Inr (m_size l = 0))"

text \<open>The free function \<open>swap(lhs, rhs)\<close>.\<close>

definition swap_free :: "cid \<Rightarrow> cid \<Rightarrow> 'a world \<Rightarrow> error + 'a world" where
  "swap_free lhs rhs w = swap_member lhs rhs w"

section \<open>Comparison operators\<close>

text \<open>
  Modelled from the spec: \<open>std::equal\<close> and \<open>std::lexicographical_compare\<close> of the C++
  standard library, which this repository calls and does not contain. Both are the
  four-iterator overloads for forward iterators: they walk the two ranges in step with
  \<open>operator!=\<close>, \<open>operator*\<close> and \<open>operator++\<close> of the iterators above, the element
  comparisons being \<open>==\<close> and \<open><\<close> of \<open>Type\<close>.

  The container is generic over \<open>Type\<close>, and \<open>operator==\<close> of \<open>Type\<close> is whatever the
  element type declares: it is the parameter \<open>eq\<close> of \<open>std_equal\<close>, \<open>operator_eq\<close> and
  \<open>operator_ne\<close>, called as \<open>eq x y\<close> for \<open>x == y\<close>. \<open>operator<\<close> of \<open>Type\<close> is the order of
  an ordered element type.
\<close>

partial_function (option) std_equal ::
  "('a \<Rightarrow> 'a \<Rightarrow> bool) \<Rightarrow> BasicIterator \<Rightarrow> BasicIterator \<Rightarrow> BasicIterator \<Rightarrow> BasicIterator
     \<Rightarrow> 'a world \<Rightarrow> (error + bool) option" where
  "std_equal eq first1 last1 first2 last2 w =
     (if operator_ne_it first1 last1 \<and> operator_ne_it first2 last2 then
        (case operator_star first1 w of
           Inl e \<Rightarrow> Some (Inl e)
         | Inr x \<Rightarrow>
             (case operator_star first2 w of
                Inl e \<Rightarrow> Some (Inl e)
              | Inr y \<Rightarrow>
                  if \<not> eq x y then Some (Inr False)
                  else
                    (case pre_increment first1 w of
                       Inl e \<Rightarrow> Some (Inl e)
                     | Inr n1 \<Rightarrow>
                         (case pre_increment first2 w of
                            Inl e \<Rightarrow> Some (Inl e)
                          | Inr n2 \<Rightarrow> std_equal eq n1 last1 n2 last2 w))))
      else Some (Inr (operator_eq_it first1 last1 \<and> operator_eq_it first2 last2)))"

partial_function (option) std_lexicographical_compare ::
  "BasicIterator \<Rightarrow> BasicIterator \<Rightarrow> BasicIterator \<Rightarrow> BasicIterator \<Rightarrow> ('a::linorder) world
     \<Rightarrow> (error + bool) option" where
  "std_lexicographical_compare first1 last1 first2 last2 w =
     (if operator_ne_it first1 last1 \<and> operator_ne_it first2 last2 then
        (case operator_star first1 w of
           Inl e \<Rightarrow> Some (Inl e)
         | Inr x \<Rightarrow>
             (case operator_star first2 w of
                Inl e \<Rightarrow> Some (Inl e)
              | Inr y \<Rightarrow>
                  if x < y then Some (Inr True)
                  else if y < x then Some (Inr False)
                  else
                    (case pre_increment first1 w of
                       Inl e \<Rightarrow> Some (Inl e)
                     | Inr n1 \<Rightarrow>
                         (case pre_increment first2 w of
                            Inl e \<Rightarrow> Some (Inl e)
                          | Inr n2 \<Rightarrow> std_lexicographical_compare n1 last1 n2 last2 w))))
      else Some (Inr (operator_eq_it first1 last1 \<and> operator_ne_it first2 last2)))"

definition operator_eq ::
  "('a \<Rightarrow> 'a \<Rightarrow> bool) \<Rightarrow> cid \<Rightarrow> cid \<Rightarrow> 'a world \<Rightarrow> (error + bool) option" where
  "operator_eq eq lhs rhs w =
     bindP (Some (cbegin lhs w)) (\<lambda>b1.
     bindP (Some (cbegin rhs w)) (\<lambda>b2. std_equal eq b1 (cend lhs) b2 (cend rhs) w))"

definition operator_ne ::
  "('a \<Rightarrow> 'a \<Rightarrow> bool) \<Rightarrow> cid \<Rightarrow> cid \<Rightarrow> 'a world \<Rightarrow> (error + bool) option" where
  "operator_ne eq lhs rhs w = bindP (operator_eq eq lhs rhs w) (\<lambda>b. Some (Inr (\<not> b)))"

definition operator_lt :: "cid \<Rightarrow> cid \<Rightarrow> ('a::linorder) world \<Rightarrow> (error + bool) option" where
  "operator_lt lhs rhs w =
     bindP (Some (cbegin lhs w)) (\<lambda>b1.
     bindP (Some (cbegin rhs w)) (\<lambda>b2. std_lexicographical_compare b1 (cend lhs) b2 (cend rhs) w))"

definition operator_le :: "cid \<Rightarrow> cid \<Rightarrow> ('a::linorder) world \<Rightarrow> (error + bool) option" where
  "operator_le lhs rhs w = bindP (operator_lt rhs lhs w) (\<lambda>b. Some (Inr (\<not> b)))"

definition operator_gt :: "cid \<Rightarrow> cid \<Rightarrow> ('a::linorder) world \<Rightarrow> (error + bool) option" where
  "operator_gt lhs rhs w = operator_lt rhs lhs w"

definition operator_ge :: "cid \<Rightarrow> cid \<Rightarrow> ('a::linorder) world \<Rightarrow> (error + bool) option" where
  "operator_ge lhs rhs w = bindP (operator_gt lhs rhs w) (\<lambda>b. Some (Inr (\<not> b)))"

section \<open>Chains and the invariant of the store\<close>

text \<open>
  \<open>seg h p xs q\<close>: following \<open>next_node\<close> from \<open>p\<close> visits exactly the live heap nodes
  \<open>xs\<close> (address and value, in order) and arrives at \<open>q\<close>. A chain is a segment that ends
  in the null pointer: this is what iteration from \<open>begin()\<close> to \<open>end()\<close> sees.
\<close>

primrec seg :: "(addr \<Rightarrow> 'a Node option) \<Rightarrow> ptr \<Rightarrow> (addr \<times> 'a) list \<Rightarrow> ptr \<Rightarrow> bool" where
  "seg h p [] q = (p = q)"
| "seg h p (x # xs) q =
     (p = Cell (fst x) \<and>
      (case h (fst x) of None \<Rightarrow> False | Some n \<Rightarrow> val n = snd x \<and> seg h (next_node n) xs q))"

definition chain :: "(addr \<Rightarrow> 'a Node option) \<Rightarrow> ptr \<Rightarrow> (addr \<times> 'a) list \<Rightarrow> bool" where
  "chain h p xs = seg h p xs Null"

text \<open>
  Container \<open>c\<close> is live, its chain is \<open>xs\<close>, and its \<open>size_\<close> is the number of nodes of
  the chain.
\<close>

definition owns :: "'a world \<Rightarrow> cid \<Rightarrow> (addr \<times> 'a) list \<Rightarrow> bool" where
  "owns w c xs =
     (case lists w c of
        None \<Rightarrow> False
      | Some l \<Rightarrow> chain (cells w) (head_next_node l) xs \<and> unat (m_size l) = length xs)"

text \<open>
  The invariant of the store: object identities not yet handed out are unused; the free
  addresses are distinct, not null and not live; every live container owns a chain of
  the length it records; no node belongs to two containers.
\<close>

definition wf :: "'a world \<Rightarrow> bool" where
  "wf w \<longleftrightarrow>
     (\<forall>c. next_obj w \<le> c \<longrightarrow> lists w c = None) \<and>
     distinct (free_list w) \<and> 0 \<notin> set (free_list w) \<and>
     (\<forall>a \<in> set (free_list w). cells w a = None) \<and> cells w 0 = None \<and>
     (\<forall>c. lists w c \<noteq> None \<longrightarrow> (\<exists>xs. owns w c xs)) \<and>
     (\<forall>c c' xs xs'. c \<noteq> c' \<longrightarrow> owns w c xs \<longrightarrow> owns w c' xs' \<longrightarrow> fst ` set xs \<inter> fst ` set xs' = {})"

text \<open>
  \<open>kept C w w'\<close>: from \<open>w\<close> to \<open>w'\<close> no container outside \<open>C\<close> was touched, neither its
  object nor any node of its chain.
\<close>

definition kept :: "cid set \<Rightarrow> 'a world \<Rightarrow> 'a world \<Rightarrow> bool" where
  "kept C w w' \<longleftrightarrow>
     (\<forall>c. c \<notin> C \<longrightarrow> lists w' c = lists w c) \<and>
     (\<forall>c xs a. c \<notin> C \<longrightarrow> owns w c xs \<longrightarrow> a \<in> fst ` set xs \<longrightarrow> cells w' a = cells w a)"

text \<open>The pointer at which a chain with the nodes \<open>xs\<close> starts.\<close>

definition first_ptr :: "(addr \<times> 'a) list \<Rightarrow> ptr" where
  "first_ptr xs = (case xs of [] \<Rightarrow> Null | x # _ \<Rightarrow> Cell (fst x))"

section \<open>Callers\<close>

text \<open>
  What a caller's loop \<open>for (const auto& x : list) out.push_back(x);\<close> collects: from the
  current position to \<open>stop\<close>, with \<open>operator!=\<close>, \<open>operator*\<close> and \<open>operator++\<close>.
\<close>

partial_function (option) collect ::
  "'a list \<Rightarrow> BasicIterator \<Rightarrow> BasicIterator \<Rightarrow> 'a world \<Rightarrow> (error + 'a list) option" where
  "collect out cur stop w =
     (if operator_ne_it cur stop then
        (case operator_star cur w of
           Inl e \<Rightarrow> Some (Inl e)
         | Inr x \<Rightarrow>
             (case pre_increment cur w of
                Inl e \<Rightarrow> Some (Inl e)
              | Inr cur' \<Rightarrow> collect (out @ [x]) cur' stop w))
      else Some (Inr out))"

definition iterate :: "cid \<Rightarrow> 'a world \<Rightarrow> (error + 'a list) option" where
  "iterate c w = bindP (Some (begin_it c w)) (\<lambda>b. collect [] b (end_it c) w)"

text \<open>
  The public operations that create or change containers, as a caller issues them one
  after the other; \<open>perform\<close> runs one and keeps the store only.
\<close>

datatype 'a operation =
    Construct
  | ConstructFrom "'a initializer_list"
  | CopyConstruct cid
  | CopyAssign cid cid
  | DoPushFront cid 'a
  | DoPopFront cid
  | DoClear cid
  | DoInsertAfter cid BasicIterator 'a
  | DoEraseAfter cid BasicIterator
  | DoSwap cid cid

fun perform :: "'a operation \<Rightarrow> 'a world \<Rightarrow> (error + 'a world) option" where
  "perform Construct w = Some (Inr (snd (default_ctor w)))"
| "perform (ConstructFrom values) w = bindP (init_list_ctor values w) (\<lambda>r. Some (Inr (snd r)))"
| "perform (CopyConstruct other) w = bindP (copy_ctor other w) (\<lambda>r. Some (Inr (snd r)))"
| "perform (CopyAssign this rhs) w = copy_assign this rhs w"
| "perform (DoPushFront this v) w = Some (PushFront this v w)"
| "perform (DoPopFront this) w = Some (PopFront this w)"
| "perform (DoClear this) w = Clear this w"
| "perform (DoInsertAfter this pos v) w = Some (bindE (InsertAfter this pos v w) (\<lambda>r. Inr (snd r)))"
| "perform (DoEraseAfter this pos) w = Some (bindE (EraseAfter this pos w) (\<lambda>r. Inr (snd r)))"
| "perform (DoSwap this other) w = Some (swap_member this other w)"

text \<open>
  Valid arguments. \<open>InsertAfter\<close> takes \<open>before_begin()\<close> of the container or an iterator
  to one of its elements; \<open>EraseAfter\<close> takes \<open>before_begin()\<close> or an iterator to an
  element that has a successor. The references given to the copy constructor and to
  \<open>operator=\<close> refer to live containers.
\<close>

definition valid_insert_pos :: "'a world \<Rightarrow> cid \<Rightarrow> BasicIterator \<Rightarrow> bool" where
  "valid_insert_pos w c pos \<longleftrightarrow>
     (\<exists>xs. owns w c xs \<and>
        (it_node pos = Sentinel c \<or> (\<exists>a. it_node pos = Cell a \<and> a \<in> fst ` set xs)))"

definition valid_erase_pos :: "'a world \<Rightarrow> cid \<Rightarrow> BasicIterator \<Rightarrow> bool" where
  "valid_erase_pos w c pos \<longleftrightarrow>
     (\<exists>xs. owns w c xs \<and>
        (it_node pos = Sentinel c \<or> (\<exists>a. it_node pos = Cell a \<and> a \<in> fst ` set (butlast xs))))"

fun valid_op :: "'a world \<Rightarrow> 'a operation \<Rightarrow> bool" where
  "valid_op w (DoInsertAfter this pos v) = valid_insert_pos w this pos"
| "valid_op w (DoEraseAfter this pos) = valid_erase_pos w this pos"
| "valid_op w (CopyConstruct other) = (lists w other \<noteq> None)"
| "valid_op w (CopyAssign this rhs) = (lists w this \<noteq> None \<and> lists w rhs \<noteq> None)"
| "valid_op w _ = True"

text \<open>The containers an operation is applied to as \<open>this\<close> (for \<open>swap\<close>, both).\<close>

fun target :: "'a operation \<Rightarrow> cid set" where
  "target Construct = {}"
| "target (ConstructFrom values) = {}"
| "target (CopyConstruct other) = {}"
| "target (CopyAssign this rhs) = {this}"
| "target (DoPushFront this v) = {this}"
| "target (DoPopFront this) = {this}"
| "target (DoClear this) = {this}"
| "target (DoInsertAfter this pos v) = {this}"
| "target (DoEraseAfter this pos) = {this}"
| "target (DoSwap this other) = {this, other}"

text \<open>
  The stores a program can reach: it starts with no container and no node, with any
  supply of distinct non-null free addresses, and performs public operations that
  complete, \<open>InsertAfter\<close> and \<open>EraseAfter\<close> at valid positions.
\<close>

inductive reachable :: "'a world \<Rightarrow> bool" where
  start: "distinct fl \<Longrightarrow> 0 \<notin> set fl \<Longrightarrow> reachable (init_world fl)"
| step: "reachable w \<Longrightarrow> valid_op w op \<Longrightarrow> perform op w = Some (Inr w') \<Longrightarrow> reachable w'"

text \<open>
  The lexicographic order in the words of the specification: the first unequal position
  decides, and a strict prefix is less.
\<close>

definition lex_less_spec :: "('a::linorder) list \<Rightarrow> 'a list \<Rightarrow> bool" where
  "lex_less_spec xs ys \<longleftrightarrow>
     (\<exists>i. i \<le> length xs \<and> i \<le> length ys \<and> take i xs = take i ys \<and>
        (i = length xs \<and> i < length ys \<or> i < length xs \<and> i < length ys \<and> xs ! i < ys ! i))"

text \<open>
  The array of an initializer list as it lies in the memory of a running program: the
  elements have a size, the array fits the address space, and it does not begin within
  the first \<open>sizeof(Type)\<close> bytes.
\<close>

definition well_placed :: "'a initializer_list \<Rightarrow> bool" where
  "well_placed values \<longleftrightarrow>
     elem_size values \<noteq> 0 \<and> unat (elem_size values) \<le> unat (il_array values) \<and>
     unat (il_array values) + length (il_elems values) * unat (elem_size values) < 2 ^ 64"

section \<open>Example stores\<close>

text \<open>
  \<open>braced vs\<close> is the braced list \<open>{v1, ..., vn}\<close> of \<open>int\<close>s, its array at address 4096;
  \<open>empty_braces\<close> is \<open>std::initializer_list<int>{}\<close>, which has no array.
\<close>

definition braced :: "int list \<Rightarrow> int initializer_list" where
  "braced vs = \<lparr>il_array = 4096, il_elems = vs, elem_size = 4\<rparr>"

definition empty_braces :: "int initializer_list" where
  "empty_braces = \<lparr>il_array = 0, il_elems = [], elem_size = 4\<rparr>"

text \<open>
  \<open>store_10_20\<close> is the store after \<open>SingleLinkedList<int> a{10, 20}\<close> in an empty program
  whose allocator will hand out the addresses 1 to 7 in this order; \<open>store_inserted\<close> is
  the store after a subsequent \<open>a.InsertAfter(a.begin(), 15)\<close>.
\<close>

definition store_10_20 :: "int world" where
  "store_10_20 =
     \<lparr>lists = [0 \<mapsto> \<lparr>head_next_node = Cell 2, m_size = 2\<rparr>],
      cells = [1 \<mapsto> \<lparr>val = 20, next_node = Null\<rparr>, 2 \<mapsto> \<lparr>val = 10, next_node = Cell 1\<rparr>],
      free_list = [3, 4, 5, 6, 7], next_obj = Suc 0\<rparr>"

definition store_inserted :: "int world" where
  "store_inserted =
     \<lparr>lists = [0 \<mapsto> \<lparr>head_next_node = Cell 2, m_size = 3\<rparr>],
      cells = [1 \<mapsto> \<lparr>val = 20, next_node = Null\<rparr>, 3 \<mapsto> \<lparr>val = 15, next_node = Cell 1\<rparr>,
               2 \<mapsto> \<lparr>val = 10, next_node = Cell 3\<rparr>],
      free_list = [4, 5, 6, 7], next_obj = Suc 0\<rparr>"

text \<open>
  \<open>store_empty\<close>: after \<open>SingleLinkedList<int> a;\<close> alone. \<open>store_three\<close>: after
  \<open>a{1, 2, 3}\<close>, \<open>b{1, 2, 4}\<close> and \<open>c{1, 2}\<close>, with eight free addresses at the start.
  \<open>store_1_2\<close>: after \<open>a{1}\<close> and \<open>b{2}\<close>, with two.
\<close>

definition store_empty :: "int world" where
  "store_empty =
     \<lparr>lists = [0 \<mapsto> \<lparr>head_next_node = Null, m_size = 0\<rparr>], cells = (\<lambda>a. None),
      free_list = [1, 2], next_obj = Suc 0\<rparr>"

definition store_three :: "int world" where
  "store_three =
     \<lparr>lists = [0 \<mapsto> \<lparr>head_next_node = Cell 3, m_size = 3\<rparr>,
               Suc 0 \<mapsto> \<lparr>head_next_node = Cell 6, m_size = 3\<rparr>,
               Suc (Suc 0) \<mapsto> \<lparr>head_next_node = Cell 8, m_size = 2\<rparr>],
      cells = [1 \<mapsto> \<lparr>val = 3, next_node = Null\<rparr>, 2 \<mapsto> \<lparr>val = 2, next_node = Cell 1\<rparr>,
               3 \<mapsto> \<lparr>val = 1, next_node = Cell 2\<rparr>, 4 \<mapsto> \<lparr>val = 4, next_node = Null\<rparr>,
               5 \<mapsto> \<lparr>val = 2, next_node = Cell 4\<rparr>, 6 \<mapsto> \<lparr>val = 1, next_node = Cell 5\<rparr>,
               7 \<mapsto> \<lparr>val = 2, next_node = Null\<rparr>, 8 \<mapsto> \<lparr>val = 1, next_node = Cell 7\<rparr>],
      free_list = [], next_obj = Suc (Suc (Suc 0))\<rparr>"

definition store_1_2 :: "int world" where
  "store_1_2 =
     \<lparr>lists = [0 \<mapsto> \<lparr>head_next_node = Cell 1, m_size = 1\<rparr>,
               Suc 0 \<mapsto> \<lparr>head_next_node = Cell 2, m_size = 1\<rparr>],
      cells = [1 \<mapsto> \<lparr>val = 1, next_node = Null\<rparr>, 2 \<mapsto> \<lparr>val = 2, next_node = Null\<rparr>],
      free_list = [], next_obj = Suc (Suc 0)\<rparr>"

text \<open>
  \<open>store_copied\<close>: \<open>store_10_20\<close> after \<open>SingleLinkedList<int> b(a);\<close>, and
  \<open>store_copy_erased\<close>: after a subsequent \<open>b.EraseAfter(b.begin())\<close>.
\<close>

definition store_copied :: "int world" where
  "store_copied =
     \<lparr>lists = [0 \<mapsto> \<lparr>head_next_node = Cell 2, m_size = 2\<rparr>,
               Suc 0 \<mapsto> \<lparr>head_next_node = Cell 6, m_size = 2\<rparr>],
      cells = [1 \<mapsto> \<lparr>val = 20, next_node = Null\<rparr>, 2 \<mapsto> \<lparr>val = 10, next_node = Cell 1\<rparr>,
               5 \<mapsto> \<lparr>val = 20, next_node = Null\<rparr>, 6 \<mapsto> \<lparr>val = 10, next_node = Cell 5\<rparr>],
      free_list = [3, 4, 7], next_obj = Suc (Suc (Suc (Suc 0)))\<rparr>"

definition store_copy_erased :: "int world" where
  "store_copy_erased =
     \<lparr>lists = [0 \<mapsto> \<lparr>head_next_node = Cell 2, m_size = 2\<rparr>,
               Suc 0 \<mapsto> \<lparr>head_next_node = Cell 6, m_size = 1\<rparr>],
      cells = [1 \<mapsto> \<lparr>val = 20, next_node = Null\<rparr>, 2 \<mapsto> \<lparr>val = 10, next_node = Cell 1\<rparr>,
               6 \<mapsto> \<lparr>val = 10, next_node = Null\<rparr>],
      free_list = [5, 3, 4, 7], next_obj = Suc (Suc (Suc (Suc 0)))\<rparr>"

text \<open>
  An element type whose \<open>operator==\<close> is not reflexive, as that of \<open>double\<close> is not: a
  \<open>number\<close> is \<open>NaN\<close> or a number, and \<open>NaN\<close> compares unequal to every value, itself
  included. \<open>store_nan\<close> is the store after \<open>SingleLinkedList<number> a;\<close> and
  \<open>a.PushFront(NaN)\<close>, with five free addresses at the start, and \<open>store_nan_copied\<close> the
  store after a subsequent \<open>SingleLinkedList<number> b(a);\<close>.
\<close>

datatype number = NaN | Num int

fun number_eq :: "number \<Rightarrow> number \<Rightarrow> bool" where
  "number_eq (Num a) (Num b) = (a = b)"
| "number_eq _ _ = False"

definition store_nan :: "number world" where
  "store_nan =
     \<lparr>lists = [0 \<mapsto> \<lparr>head_next_node = Cell 1, m_size = 1\<rparr>],
      cells = [1 \<mapsto> \<lparr>val = NaN, next_node = Null\<rparr>],
      free_list = [2, 3, 4, 5], next_obj = Suc 0\<rparr>"

definition store_nan_copied :: "number world" where
  "store_nan_copied =
     \<lparr>lists = [0 \<mapsto> \<lparr>head_next_node = Cell 1, m_size = 1\<rparr>,
               Suc 0 \<mapsto> \<lparr>head_next_node = Cell 3, m_size = 1\<rparr>],
      cells = [1 \<mapsto> \<lparr>val = NaN, next_node = Null\<rparr>, 3 \<mapsto> \<lparr>val = NaN, next_node = Null\<rparr>],
      free_list = [2, 4, 5], next_obj = Suc (Suc (Suc (Suc 0)))\<rparr>"

section \<open>Facts about chains and the invariant\<close>

subsection \<open>Chains\<close>

lemma bindE_simps [simp]: "bindE (Inl e) f = Inl e" "bindE (Inr x) f = f x"
  by (simp_all add: bindE_def)

lemma bindP_simps [simp]:
  "bindP None f = None" "bindP (Some (Inl e)) f = Some (Inl e)" "bindP (Some (Inr x)) f = f x"
  by (simp_all add: bindP_def)

lemma seg_append: "seg h p (xs @ ys) q = (\<exists>r. seg h p xs r \<and> seg h r ys q)"
  by (induction xs arbitrary: p) (auto split: option.splits)

lemma seg_agree: "(\<And>a. a \<in> fst ` set xs \<Longrightarrow> h' a = h a) \<Longrightarrow> seg h' p xs q = seg h p xs q"
  by (induction xs arbitrary: p) (auto split: option.splits)

lemma chain_agree: "(\<And>a. a \<in> fst ` set xs \<Longrightarrow> h' a = h a) \<Longrightarrow> chain h' p xs = chain h p xs"
  unfolding chain_def by (rule seg_agree)

lemma chain_fun: "chain h p xs \<Longrightarrow> chain h p ys \<Longrightarrow> xs = ys"
  unfolding chain_def
proof (induction xs arbitrary: p ys)
  case Nil
  then show ?case by (cases ys) auto
next
  case (Cons x xs)
  then show ?case by (cases ys) (auto split: option.splits simp: prod_eq_iff)
qed

lemma seg_live: "seg h p xs q \<Longrightarrow> a \<in> fst ` set xs \<Longrightarrow> h a \<noteq> None"
  by (induction xs arbitrary: p) (auto split: option.splits)

lemma chain_live: "chain h p xs \<Longrightarrow> a \<in> fst ` set xs \<Longrightarrow> h a \<noteq> None"
  unfolding chain_def by (rule seg_live)

lemma chain_Cons: "chain h p (x # xs) =
   (p = Cell (fst x) \<and> (\<exists>n. h (fst x) = Some n \<and> val n = snd x \<and> chain h (next_node n) xs))"
  by (auto simp: chain_def split: option.splits)

lemma chain_Nil [simp]: "chain h p [] = (p = Null)"
  by (simp add: chain_def)

lemma chain_Null [simp]: "chain h Null xs = (xs = [])"
  by (cases xs) (auto simp: chain_def)

lemma chain_suffix: "chain h p (xs @ y # ys) \<Longrightarrow> chain h (Cell (fst y)) (y # ys)"
  unfolding chain_def by (auto simp: seg_append)

lemma chain_head_notin_tail:
  assumes "chain h p (x # xs)" shows "fst x \<notin> fst ` set xs"
proof
  assume "fst x \<in> fst ` set xs"
  then obtain y where y: "y \<in> set xs" "fst y = fst x" by auto
  then obtain us vs where xs: "xs = us @ y # vs" by (meson split_list)
  from assms have "chain h (Cell (fst y)) (y # vs)"
    using chain_suffix [of h p "x # us" y vs] by (simp add: xs)
  moreover from assms have "chain h (Cell (fst y)) (x # xs)"
    by (simp add: chain_Cons y)
  ultimately have "y # vs = x # xs" by (rule chain_fun)
  then show False by (simp add: xs)
qed

lemma chain_distinct: "chain h p xs \<Longrightarrow> distinct (map fst xs)"
proof (induction xs arbitrary: p)
  case Nil
  then show ?case by simp
next
  case (Cons x xs)
  from Cons.prems have "fst x \<notin> fst ` set xs" by (rule chain_head_notin_tail)
  moreover from Cons.prems obtain q where "chain h q xs"
    by (auto simp: chain_Cons)
  then have "distinct (map fst xs)" by (rule Cons.IH)
  ultimately show ?case by simp
qed

lemma distinct_nonzero_length:
  fixes as :: "addr list"
  assumes "distinct as" "0 \<notin> set as"
  shows "length as < 2 ^ 64"
proof -
  have "set as \<subseteq> UNIV - {0}" using assms by auto
  then have "card (set as) \<le> card (UNIV - {0 :: addr})" by (intro card_mono) auto
  also have "\<dots> = 2 ^ 64 - 1" by (simp add: card_Diff_singleton card_word)
  finally have "card (set as) < 2 ^ 64" by simp
  then show ?thesis using assms(1) by (simp add: distinct_card)
qed

subsection \<open>Ownership and frames\<close>

lemma owns_fun: "owns w c xs \<Longrightarrow> owns w c ys \<Longrightarrow> xs = ys"
  by (auto simp: owns_def split: option.splits dest: chain_fun)

lemma owns_live: "owns w c xs \<Longrightarrow> a \<in> fst ` set xs \<Longrightarrow> cells w a \<noteq> None"
  by (auto simp: owns_def split: option.splits dest: chain_live)

lemma owns_listed: "owns w c xs \<Longrightarrow> lists w c \<noteq> None"
  by (auto simp: owns_def split: option.splits)

lemma owns_distinct: "owns w c xs \<Longrightarrow> distinct (map fst xs)"
  by (auto simp: owns_def split: option.splits dest: chain_distinct)

lemma owns_not_free: "wf w \<Longrightarrow> owns w c xs \<Longrightarrow> a \<in> fst ` set xs \<Longrightarrow> a \<notin> set (free_list w) \<and> a \<noteq> 0"
  using owns_live [of w c xs a] by (auto simp: wf_def)

lemma owns_kept: "kept C w w' \<Longrightarrow> c \<notin> C \<Longrightarrow> owns w c xs \<Longrightarrow> owns w' c xs"
proof -
  assume k: "kept C w w'" and c: "c \<notin> C" and o: "owns w c xs"
  from k c have l: "lists w' c = lists w c" by (simp add: kept_def)
  from k c o have "\<And>a. a \<in> fst ` set xs \<Longrightarrow> cells w' a = cells w a"
    unfolding kept_def by blast
  then have "chain (cells w') p xs = chain (cells w) p xs" for p
    by (rule chain_agree)
  with o l show ?thesis by (simp add: owns_def split: option.splits)
qed

lemma kept_refl: "kept C w w"
  by (simp add: kept_def)

lemma kept_trans: "kept C w w' \<Longrightarrow> kept C w' w'' \<Longrightarrow> kept C w w''"
proof -
  assume a: "kept C w w'" and b: "kept C w' w''"
  have "cells w'' x = cells w x" if "c \<notin> C" "owns w c xs" "x \<in> fst ` set xs" for c xs x
  proof -
    from a that have "owns w' c xs" by (auto intro: owns_kept)
    with b that have "cells w'' x = cells w' x" unfolding kept_def by blast
    moreover from a that have "cells w' x = cells w x" unfolding kept_def by blast
    ultimately show ?thesis by simp
  qed
  moreover have "lists w'' c = lists w c" if "c \<notin> C" for c
    using a b that by (simp add: kept_def)
  ultimately show ?thesis unfolding kept_def by blast
qed

lemma kept_mono: "kept C w w' \<Longrightarrow> C \<subseteq> D \<Longrightarrow> kept D w w'"
  unfolding kept_def by blast

lemma wf_step:
  assumes w: "wf w"
    and ids: "\<And>c. next_obj w' \<le> c \<Longrightarrow> lists w' c = None"
    and fl: "distinct (free_list w')" "0 \<notin> set (free_list w')"
      "\<And>a. a \<in> set (free_list w') \<Longrightarrow> cells w' a = None" "cells w' 0 = None"
    and k: "kept C w w'"
    and own: "\<And>c. c \<in> C \<Longrightarrow> lists w' c \<noteq> None \<Longrightarrow> owns w' c (g c)"
    and d1: "\<And>c c'. c \<in> C \<Longrightarrow> c' \<in> C \<Longrightarrow> c \<noteq> c' \<Longrightarrow> lists w' c \<noteq> None \<Longrightarrow> lists w' c' \<noteq> None
               \<Longrightarrow> fst ` set (g c) \<inter> fst ` set (g c') = {}"
    and d2: "\<And>c c' xs. c \<in> C \<Longrightarrow> c' \<notin> C \<Longrightarrow> lists w' c \<noteq> None \<Longrightarrow> owns w c' xs
               \<Longrightarrow> fst ` set (g c) \<inter> fst ` set xs = {}"
  shows "wf w'"
proof -
  have old: "\<exists>xs. owns w c xs \<and> owns w' c xs" if "c \<notin> C" "lists w' c \<noteq> None" for c
  proof -
    from k that have "lists w c \<noteq> None" by (simp add: kept_def)
    with w obtain xs where "owns w c xs" unfolding wf_def by blast
    with k that show ?thesis by (blast intro: owns_kept)
  qed
  have ex: "\<exists>xs. owns w' c xs" if "lists w' c \<noteq> None" for c
    using that own old by (cases "c \<in> C") blast+
  have dis: "fst ` set xs \<inter> fst ` set xs' = {}"
    if "c \<noteq> c'" "owns w' c xs" "owns w' c' xs'" for c c' xs xs'
  proof -
    have l: "lists w' c \<noteq> None" "lists w' c' \<noteq> None" using that by (auto dest: owns_listed)
    show ?thesis
    proof (cases "c \<in> C"; cases "c' \<in> C")
      assume "c \<in> C" "c' \<in> C"
      then have "xs = g c" "xs' = g c'" using own l that by (auto intro: owns_fun)
      with d1 [of c c'] \<open>c \<in> C\<close> \<open>c' \<in> C\<close> that l show ?thesis by simp
    next
      assume cc: "c \<in> C" "c' \<notin> C"
      then have "xs = g c" using own l that by (auto intro: owns_fun)
      moreover from old [OF cc(2) l(2)] that have "owns w c' xs'" by (auto dest: owns_fun)
      ultimately show ?thesis using d2 [of c c' xs'] cc l by simp
    next
      assume cc: "c \<notin> C" "c' \<in> C"
      then have "xs' = g c'" using own l that by (auto intro: owns_fun)
      moreover from old [OF cc(1) l(1)] that have "owns w c xs" by (auto dest: owns_fun)
      ultimately show ?thesis using d2 [of c' c xs] cc l by auto
    next
      assume cc: "c \<notin> C" "c' \<notin> C"
      from old [OF cc(1) l(1)] that have "owns w c xs" by (auto dest: owns_fun)
      moreover from old [OF cc(2) l(2)] that have "owns w c' xs'" by (auto dest: owns_fun)
      ultimately show ?thesis using w that(1) unfolding wf_def by blast
    qed
  qed
  show ?thesis
    unfolding wf_def using ids fl ex dis by blast
qed

lemma wf_disjoint: "wf w \<Longrightarrow> c \<noteq> c' \<Longrightarrow> owns w c xs \<Longrightarrow> owns w c' xs' \<Longrightarrow> fst ` set xs \<inter> fst ` set xs' = {}"
  unfolding wf_def by blast

lemma wf_owns: "wf w \<Longrightarrow> lists w c \<noteq> None \<Longrightarrow> \<exists>xs. owns w c xs"
  unfolding wf_def by blast

lemma wf_live_below: "wf w \<Longrightarrow> lists w c \<noteq> None \<Longrightarrow> c < next_obj w"
  unfolding wf_def by (meson not_le)

subsection \<open>PushFront, PopFront and Clear\<close>

lemma size_incr:
  fixes x :: "64 word"
  assumes "unat x = n" "Suc n < 2 ^ 64"
  shows "unat (x + 1) = Suc n"
proof -
  have "unat x + unat (1 :: 64 word) < 2 ^ LENGTH(64)" using assms by simp
  then have "unat (x + 1) = unat x + unat (1 :: 64 word)" by (simp only: unat_add_lem)
  with assms show ?thesis by simp
qed

lemma size_decr:
  fixes x :: "64 word"
  assumes "unat x = Suc n"
  shows "unat (x - 1) = n"
proof -
  from assms have "x \<noteq> 0" by auto
  then have "unat (x - 1) = unat x - 1" by (rule unat_minus_one)
  with assms show ?thesis by simp
qed

lemma owns_room:
  assumes "wf w" "owns w c xs" "a \<in> set (free_list w)"
  shows "Suc (length xs) < 2 ^ 64"
proof -
  have "a \<notin> fst ` set xs" "0 \<notin> fst ` set xs" "a \<noteq> 0"
    using assms owns_not_free [OF assms(1,2)] by (auto simp: wf_def)
  moreover have "distinct (map fst xs)" using assms(2) by (rule owns_distinct)
  ultimately have "distinct (a # map fst xs)" "0 \<notin> set (a # map fst xs)" by auto
  then have "length (a # map fst xs) < 2 ^ 64" by (rule distinct_nonzero_length)
  then show ?thesis by simp
qed

lemma PushFront_spec:
  assumes w: "wf w" and o: "owns w this xs" and f: "free_list w = a # fl"
  shows "\<exists>w'. PushFront this v w = Inr w' \<and> wf w' \<and> owns w' this ((a, v) # xs) \<and>
           kept {this} w w' \<and> free_list w' = fl \<and> next_obj w' = next_obj w \<and>
           (\<forall>c. (lists w' c = None) = (lists w c = None))"
proof -
  from o obtain l where l: "lists w this = Some l" "chain (cells w) (head_next_node l) xs"
      "unat (m_size l) = length xs"
    by (auto simp: owns_def split: option.splits)
  define w' where "w' = w\<lparr>free_list := fl,
      cells := (cells w)(a \<mapsto> \<lparr>val = v, next_node = head_next_node l\<rparr>),
      lists := (lists w)(this \<mapsto> l\<lparr>head_next_node := Cell a, m_size := m_size l + 1\<rparr>)\<rparr>"
  have run: "PushFront this v w = Inr w'"
    using l f by (simp add: PushFront_def allocate_def get_list_def put_list_def construct_def w'_def)
  have a: "a \<notin> set fl" "a \<noteq> 0" "cells w a = None" "distinct fl" "0 \<notin> set fl"
    using w f by (auto simp: wf_def)
  have fresh: "x \<noteq> a" if "owns w c ys" "x \<in> fst ` set ys" for c ys x
    using owns_live [OF that] a by auto
  have k: "kept {this} w w'"
    unfolding kept_def using fresh by (auto simp: w'_def)
  have "chain (cells w') (head_next_node l) xs = chain (cells w) (head_next_node l) xs"
    by (rule chain_agree) (use fresh [OF o] in \<open>auto simp: w'_def\<close>)
  moreover have "unat (m_size l + 1) = Suc (length xs)"
    using l(3) owns_room [OF w o, of a] f by (intro size_incr) auto
  ultimately have o': "owns w' this ((a, v) # xs)"
    using l by (simp add: owns_def chain_Cons w'_def)
  have "wf w'"
  proof (rule wf_step [OF w _ _ _ _ _ k, where g = "\<lambda>c. (a, v) # xs"])
    show "lists w' c = None" if "next_obj w' \<le> c" for c
      using that w l by (auto simp: w'_def wf_def)
    show "distinct (free_list w')" "0 \<notin> set (free_list w')" "cells w' 0 = None"
      using a w by (auto simp: w'_def wf_def)
    show "cells w' x = None" if "x \<in> set (free_list w')" for x
      using that a w f by (auto simp: w'_def wf_def)
    show "owns w' c ((a, v) # xs)" if "c \<in> {this}" for c using that o' by simp
    show "fst ` set ((a, v) # xs) \<inter> fst ` set ys = {}" if "c \<in> {this}" "c' \<notin> {this}" "owns w c' ys" for c c' ys
      using that wf_disjoint [OF w _ o that(3)] fresh [OF that(3)] by auto
  qed auto
  with run o' k l(1) show ?thesis by (auto simp: w'_def)
qed

lemma PopFront_empty: "owns w this [] \<Longrightarrow> PopFront this w = Inr w"
  by (auto simp: owns_def PopFront_def get_list_def split: option.splits)

lemma PopFront_spec:
  assumes w: "wf w" and o: "owns w this ((a, v) # xs)"
  shows "\<exists>w'. PopFront this w = Inr w' \<and> wf w' \<and> owns w' this xs \<and>
           kept {this} w w' \<and> free_list w' = a # free_list w \<and> next_obj w' = next_obj w \<and>
           (\<forall>c. (lists w' c = None) = (lists w c = None))"
proof -
  from o obtain l n where l: "lists w this = Some l" "head_next_node l = Cell a"
      "cells w a = Some n" "val n = v" "chain (cells w) (next_node n) xs"
      "unat (m_size l) = Suc (length xs)"
    by (auto simp: owns_def chain_Cons split: option.splits)
  define w' where "w' = w\<lparr>lists := (lists w)(this \<mapsto> l\<lparr>head_next_node := next_node n, m_size := m_size l - 1\<rparr>),
      cells := (cells w)(a := None), free_list := a # free_list w\<rparr>"
  have run: "PopFront this w = Inr w'"
    using l by (simp add: PopFront_def get_list_def put_list_def read_next_def get_node_def
        delete_Node_def w'_def)
  have a: "a \<notin> set (free_list w)" "a \<noteq> 0"
    using owns_not_free [OF w o, of a] by auto
  have axs: "a \<notin> fst ` set xs"
    using o chain_head_notin_tail [of "cells w" _ "(a, v)" xs] by (auto simp: owns_def split: option.splits)
  have other: "x \<noteq> a" if "c \<noteq> this" "owns w c ys" "x \<in> fst ` set ys" for c ys x
    using wf_disjoint [OF w that(1,2) o] that(3) by auto
  have k: "kept {this} w w'"
    unfolding kept_def using other by (auto simp: w'_def)
  have "chain (cells w') (next_node n) xs = chain (cells w) (next_node n) xs"
    by (rule chain_agree) (use axs in \<open>auto simp: w'_def\<close>)
  moreover have "unat (m_size l - 1) = length xs"
    using l(6) by (rule size_decr)
  ultimately have o': "owns w' this xs"
    using l by (simp add: owns_def w'_def)
  have "wf w'"
  proof (rule wf_step [OF w _ _ _ _ _ k, where g = "\<lambda>c. xs"])
    show "lists w' c = None" if "next_obj w' \<le> c" for c
      using that w l by (auto simp: w'_def wf_def)
    show "distinct (free_list w')" "0 \<notin> set (free_list w')" "cells w' 0 = None"
      using a w by (auto simp: w'_def wf_def)
    show "cells w' x = None" if "x \<in> set (free_list w')" for x
      using that a w by (auto simp: w'_def wf_def)
    show "owns w' c xs" if "c \<in> {this}" for c using that o' by simp
    show "fst ` set xs \<inter> fst ` set ys = {}" if "c \<in> {this}" "c' \<notin> {this}" "owns w c' ys" for c c' ys
      using that wf_disjoint [OF w _ o that(3)] by auto
  qed auto
  with run o' k l(1) show ?thesis by (auto simp: w'_def)
qed

lemma owns_Nil: "owns w c [] = (\<exists>l. lists w c = Some l \<and> head_next_node l = Null \<and> m_size l = 0)"
  by (auto simp: owns_def unat_eq_0 split: option.splits)

lemma owns_nonempty_size: "owns w c (x # xs) \<Longrightarrow> lists w c = Some l \<Longrightarrow> m_size l \<noteq> 0"
  by (auto simp: owns_def)

lemma Clear_spec:
  "wf w \<Longrightarrow> owns w this xs \<Longrightarrow>
   \<exists>w'. Clear this w = Some (Inr w') \<and> wf w' \<and> owns w' this [] \<and> kept {this} w w' \<and>
        free_list w' = rev (map fst xs) @ free_list w \<and> next_obj w' = next_obj w \<and>
        (\<forall>c. (lists w' c = None) = (lists w c = None))"
proof (induction xs arbitrary: w)
  case Nil
  then show ?case
    by (subst Clear.simps) (auto simp: owns_Nil get_list_def kept_refl)
next
  case (Cons x xs)
  obtain a v where x: "x = (a, v)" by (cases x)
  from Cons.prems obtain l where l0: "lists w this = Some l"
    by (auto simp: owns_def split: option.splits)
  with Cons.prems have l: "lists w this = Some l" "m_size l \<noteq> 0"
    by (auto dest: owns_nonempty_size)
  from PopFront_spec [OF Cons.prems(1), of this a v xs] Cons.prems(2)
  obtain w1 where w1: "PopFront this w = Inr w1" "wf w1" "owns w1 this xs" "kept {this} w w1"
      "free_list w1 = a # free_list w" "next_obj w1 = next_obj w"
      "\<forall>c. (lists w1 c = None) = (lists w c = None)"
    by (auto simp: x)
  from Cons.IH [OF w1(2,3)] obtain w' where w': "Clear this w1 = Some (Inr w')" "wf w'"
      "owns w' this []" "kept {this} w1 w'" "free_list w' = rev (map fst xs) @ free_list w1"
      "next_obj w' = next_obj w1" "\<forall>c. (lists w' c = None) = (lists w1 c = None)"
    by blast
  have "Clear this w = Some (Inr w')"
    by (subst Clear.simps) (simp add: get_list_def l w1 w')
  moreover have "kept {this} w w'" using w1(4) w'(4) by (rule kept_trans)
  ultimately show ?case using w1 w' by (auto simp: x)
qed

subsection \<open>Construction and swap\<close>

lemma default_ctor_spec:
  assumes w: "wf w" and d: "default_ctor w = (c, w')"
  shows "c = next_obj w \<and> lists w c = None \<and> wf w' \<and> owns w' c [] \<and> kept {c} w w' \<and>
         free_list w' = free_list w \<and> next_obj w' = Suc c \<and> cells w' = cells w \<and>
         (\<forall>c'. c' \<noteq> c \<longrightarrow> lists w' c' = lists w c')"
proof -
  from d have c: "c = next_obj w" and w': "w' = w\<lparr>lists := (lists w)(c \<mapsto> \<lparr>head_next_node = Null, m_size = 0\<rparr>),
        next_obj := Suc c\<rparr>"
    by (auto simp: default_ctor_def)
  have fresh: "lists w c = None" using w c by (simp add: wf_def)
  have o: "owns w' c []" by (simp add: owns_Nil w')
  have k: "kept {c} w w'" by (simp add: kept_def w')
  have "wf w'"
  proof (rule wf_step [OF w _ _ _ _ _ k, where g = "\<lambda>c. []"])
    show "lists w' c' = None" if "next_obj w' \<le> c'" for c'
      using that w c by (auto simp: w' wf_def)
    show "distinct (free_list w')" "0 \<notin> set (free_list w')" "cells w' 0 = None"
      using w by (auto simp: w' wf_def)
    show "cells w' x = None" if "x \<in> set (free_list w')" for x
      using that w by (auto simp: w' wf_def)
    show "owns w' c' []" if "c' \<in> {c}" for c' using that o by simp
  qed auto
  with c fresh o k show ?thesis by (simp add: w')
qed

lemma sll_overwrite:
  fixes l l' :: SingleLinkedList
  shows "l\<lparr>head_next_node := head_next_node l', m_size := m_size l'\<rparr> = l'"
    and "l\<lparr>m_size := m_size l', head_next_node := head_next_node l'\<rparr> = l'"
  by (cases l; cases l'; simp)+

lemma swap_member_spec:
  assumes w: "wf w" and oa: "owns w a xs" and ob: "owns w b ys"
  shows "\<exists>w'. swap_member a b w = Inr w' \<and> wf w' \<and> owns w' a ys \<and> owns w' b xs \<and>
           kept {a, b} w w' \<and> free_list w' = free_list w \<and> next_obj w' = next_obj w \<and>
           cells w' = cells w \<and> (\<forall>c. (lists w' c = None) = (lists w c = None))"
proof -
  from oa obtain la where la: "lists w a = Some la" "chain (cells w) (head_next_node la) xs"
      "unat (m_size la) = length xs"
    by (auto simp: owns_def split: option.splits)
  from ob obtain lb where lb: "lists w b = Some lb" "chain (cells w) (head_next_node lb) ys"
      "unat (m_size lb) = length ys"
    by (auto simp: owns_def split: option.splits)
  define w' where "w' = w\<lparr>lists := (lists w)(a \<mapsto> lb, b \<mapsto> la)\<rparr>"
  have run: "swap_member a b w = Inr w'"
  proof (cases "a = b")
    case True
    then show ?thesis using la lb
      by (simp add: swap_member_def get_list_def put_list_def w'_def sll_overwrite)
  next
    case False
    then show ?thesis using la lb
      by (simp add: swap_member_def get_list_def put_list_def w'_def sll_overwrite)
  qed
  have o': "owns w' a ys" "owns w' b xs"
    using la lb oa ob by (auto simp: owns_def w'_def dest: owns_fun)
  have k: "kept {a, b} w w'" by (simp add: kept_def w'_def)
  have "wf w'"
  proof (rule wf_step [OF w _ _ _ _ _ k, where g = "\<lambda>c. if c = a then ys else xs"])
    show "lists w' c' = None" if "next_obj w' \<le> c'" for c'
      using that w la lb by (auto simp: w'_def wf_def)
    show "distinct (free_list w')" "0 \<notin> set (free_list w')" "cells w' 0 = None"
      using w by (auto simp: w'_def wf_def)
    show "cells w' x = None" if "x \<in> set (free_list w')" for x
      using that w by (auto simp: w'_def wf_def)
    show "owns w' c (if c = a then ys else xs)" if "c \<in> {a, b}" for c using that o' by auto
    show "fst ` set (if c = a then ys else xs) \<inter> fst ` set (if c' = a then ys else xs) = {}"
      if "c \<in> {a, b}" "c' \<in> {a, b}" "c \<noteq> c'" for c c'
      using that wf_disjoint [OF w _ oa ob] by auto
    show "fst ` set (if c = a then ys else xs) \<inter> fst ` set zs = {}"
      if "c \<in> {a, b}" "c' \<notin> {a, b}" "owns w c' zs" for c c' zs
      using that wf_disjoint [OF w _ oa that(3)] wf_disjoint [OF w _ ob that(3)] by auto
  qed
  with run o' k la lb show ?thesis by (auto simp: w'_def)
qed

subsection \<open>InsertAfter and EraseAfter\<close>

lemma chain_first: "chain h p xs \<Longrightarrow> p = first_ptr xs"
  by (cases xs) (auto simp: first_ptr_def chain_Cons)

lemma chain_split:
  "chain h p (us @ x # vs) = (seg h p us (Cell (fst x)) \<and> chain h (Cell (fst x)) (x # vs))"
  by (auto simp: chain_def seg_append)

lemma begin_it_owns: "owns w c xs \<Longrightarrow> begin_it c w = Inr (Iterator (first_ptr xs))"
  by (auto simp: owns_def begin_it_def get_list_def split: option.splits dest: chain_first)

lemma cbegin_owns: "owns w c xs \<Longrightarrow> cbegin c w = Inr (ConstIterator (first_ptr xs))"
  by (auto simp: owns_def cbegin_def get_list_def split: option.splits dest: chain_first)

lemma InsertAfter_before_begin:
  assumes w: "wf w" and o: "owns w this xs" and f: "free_list w = a # fl"
    and pos: "it_node pos = Sentinel this"
  shows "\<exists>w'. InsertAfter this pos v w = Inr (Iterator (Cell a), w') \<and> PushFront this v w = Inr w' \<and>
           wf w' \<and> owns w' this ((a, v) # xs) \<and>
           kept {this} w w' \<and> free_list w' = fl \<and> next_obj w' = next_obj w \<and>
           (\<forall>c. (lists w' c = None) = (lists w c = None))"
proof -
  from PushFront_spec [OF w o f, of v] obtain w' where w': "PushFront this v w = Inr w'" "wf w'"
    "owns w' this ((a, v) # xs)" "kept {this} w w'" "free_list w' = fl" "next_obj w' = next_obj w"
    "\<forall>c. (lists w' c = None) = (lists w c = None)" by blast
  have "InsertAfter this pos v w = Inr (Iterator (Cell a), w')"
    using pos w'(1) begin_it_owns [OF w'(3)]
    by (simp add: InsertAfter_def operator_eq_it_def before_begin_def first_ptr_def)
  with w' show ?thesis by blast
qed

lemma InsertAfter_mid:
  assumes w: "wf w" and o: "owns w this (us @ (b, vb) # vs)" and f: "free_list w = a # fl"
    and pos: "it_node pos = Cell b"
  shows "\<exists>w'. InsertAfter this pos v w = Inr (Iterator (Cell a), w') \<and>
           wf w' \<and> owns w' this (us @ (b, vb) # (a, v) # vs) \<and>
           kept {this} w w' \<and> free_list w' = fl \<and> next_obj w' = next_obj w \<and>
           (\<forall>c. (lists w' c = None) = (lists w c = None))"
proof -
  let ?h = "cells w"
  from o obtain l nb where l: "lists w this = Some l" "seg ?h (head_next_node l) us (Cell b)"
      "?h b = Some nb" "val nb = vb" "chain ?h (next_node nb) vs"
      "unat (m_size l) = length (us @ (b, vb) # vs)"
    by (auto simp: owns_def chain_split chain_Cons split: option.splits)
  define w' where "w' = w\<lparr>free_list := fl,
      cells := (?h)(a \<mapsto> \<lparr>val = v, next_node = next_node nb\<rparr>, b \<mapsto> nb\<lparr>next_node := Cell a\<rparr>),
      lists := (lists w)(this \<mapsto> l\<lparr>m_size := m_size l + 1\<rparr>)\<rparr>"
  have a: "a \<notin> set fl" "a \<noteq> 0" "?h a = None" "distinct fl" "0 \<notin> set fl"
    using w f by (auto simp: wf_def)
  then have ab: "a \<noteq> b" using l(3) by auto
  have run: "InsertAfter this pos v w = Inr (Iterator (Cell a), w')"
    using l f pos ab
    by (simp add: InsertAfter_def operator_eq_it_def before_begin_def allocate_def read_next_def
        get_node_def write_next_def construct_def get_list_def put_list_def w'_def)
  have fresh: "x \<noteq> a" if "owns w c ys" "x \<in> fst ` set ys" for c ys x
    using owns_live [OF that] a by auto
  have other: "x \<noteq> b" if "c \<noteq> this" "owns w c ys" "x \<in> fst ` set ys" for c ys x
    using wf_disjoint [OF w that(1,2) o] that(3) by auto
  have k: "kept {this} w w'"
    unfolding kept_def using fresh other by (auto simp: w'_def)
  have d: "distinct (map fst (us @ (b, vb) # vs))" using o by (rule owns_distinct)
  have ain: "a \<notin> fst ` set (us @ (b, vb) # vs)" using fresh [OF o] by blast
  have "seg (cells w') (head_next_node l) us (Cell b) = seg ?h (head_next_node l) us (Cell b)"
    by (rule seg_agree) (use d ain in \<open>auto simp: w'_def\<close>)
  moreover have "chain (cells w') (next_node nb) vs = chain ?h (next_node nb) vs"
    by (rule chain_agree) (use d ain in \<open>auto simp: w'_def\<close>)
  moreover have "unat (m_size l + 1) = Suc (length (us @ (b, vb) # vs))"
    using l(6) owns_room [OF w o, of a] f by (intro size_incr) auto
  ultimately have o': "owns w' this (us @ (b, vb) # (a, v) # vs)"
    using l ab by (simp add: owns_def chain_split chain_Cons w'_def)
  have "wf w'"
  proof (rule wf_step [OF w _ _ _ _ _ k, where g = "\<lambda>c. us @ (b, vb) # (a, v) # vs"])
    show "lists w' c = None" if "next_obj w' \<le> c" for c
      using that w l by (auto simp: w'_def wf_def)
    show "distinct (free_list w')" "0 \<notin> set (free_list w')" "cells w' 0 = None"
      using a w l(3) by (auto simp: w'_def wf_def)
    show "cells w' x = None" if "x \<in> set (free_list w')" for x
      using that a w f l(3) by (auto simp: w'_def wf_def)
    show "owns w' c (us @ (b, vb) # (a, v) # vs)" if "c \<in> {this}" for c using that o' by simp
    show "fst ` set (us @ (b, vb) # (a, v) # vs) \<inter> fst ` set ys = {}"
      if "c \<in> {this}" "c' \<notin> {this}" "owns w c' ys" for c c' ys
      using that wf_disjoint [OF w _ o that(3)] fresh [OF that(3)] by auto
  qed auto
  with run o' k l(1) show ?thesis by (auto simp: w'_def)
qed

lemma EraseAfter_before_begin:
  assumes w: "wf w" and o: "owns w this ((a, v) # xs)" and pos: "it_node pos = Sentinel this"
  shows "\<exists>w'. EraseAfter this pos w = Inr (Iterator (first_ptr xs), w') \<and> PopFront this w = Inr w' \<and>
           wf w' \<and> owns w' this xs \<and>
           kept {this} w w' \<and> free_list w' = a # free_list w \<and> next_obj w' = next_obj w \<and>
           (\<forall>c. (lists w' c = None) = (lists w c = None))"
proof -
  from PopFront_spec [OF w o] obtain w' where w': "PopFront this w = Inr w'" "wf w'"
    "owns w' this xs" "kept {this} w w'" "free_list w' = a # free_list w" "next_obj w' = next_obj w"
    "\<forall>c. (lists w' c = None) = (lists w c = None)" by blast
  have "EraseAfter this pos w = Inr (Iterator (first_ptr xs), w')"
    using pos w'(1) begin_it_owns [OF w'(3)]
    by (simp add: EraseAfter_def operator_eq_it_def before_begin_def)
  with w' show ?thesis by blast
qed

lemma EraseAfter_mid:
  assumes w: "wf w" and o: "owns w this (us @ (b, vb) # (d, vd) # vs)"
    and pos: "it_node pos = Cell b"
  shows "\<exists>w'. EraseAfter this pos w = Inr (Iterator (first_ptr vs), w') \<and>
           wf w' \<and> owns w' this (us @ (b, vb) # vs) \<and>
           kept {this} w w' \<and> free_list w' = d # free_list w \<and> next_obj w' = next_obj w \<and>
           (\<forall>c. (lists w' c = None) = (lists w c = None))"
proof -
  let ?h = "cells w"
  from o obtain l nb nd where l: "lists w this = Some l" "seg ?h (head_next_node l) us (Cell b)"
      "?h b = Some nb" "val nb = vb" "next_node nb = Cell d" "?h d = Some nd" "val nd = vd"
      "chain ?h (next_node nd) vs"
      "unat (m_size l) = Suc (length (us @ (b, vb) # vs))"
    by (auto simp: owns_def chain_split chain_Cons split: option.splits)
  define w' where "w' = w\<lparr>cells := (?h)(d := None, b \<mapsto> nb\<lparr>next_node := next_node nd\<rparr>),
      free_list := d # free_list w,
      lists := (lists w)(this \<mapsto> l\<lparr>m_size := m_size l - 1\<rparr>)\<rparr>"
  have dd: "distinct (map fst (us @ (b, vb) # (d, vd) # vs))" using o by (rule owns_distinct)
  then have bd: "b \<noteq> d" by auto
  have r: "next_node nd = first_ptr vs" using l(8) by (rule chain_first)
  have run: "EraseAfter this pos w = Inr (Iterator (first_ptr vs), w')"
    using l pos bd r
    by (simp add: EraseAfter_def operator_eq_it_def before_begin_def read_next_def
        get_node_def write_next_def delete_Node_def get_list_def put_list_def w'_def)
  have dfree: "d \<notin> set (free_list w)" "d \<noteq> 0"
    using owns_not_free [OF w o, of d] by auto
  have other: "x \<noteq> b \<and> x \<noteq> d" if "c \<noteq> this" "owns w c ys" "x \<in> fst ` set ys" for c ys x
    using wf_disjoint [OF w that(1,2) o] that(3) by auto
  have k: "kept {this} w w'"
    unfolding kept_def using other by (auto simp: w'_def)
  have "seg (cells w') (head_next_node l) us (Cell b) = seg ?h (head_next_node l) us (Cell b)"
    by (rule seg_agree) (use dd in \<open>auto simp: w'_def\<close>)
  moreover have "chain (cells w') (next_node nd) vs = chain ?h (next_node nd) vs"
    by (rule chain_agree) (use dd in \<open>auto simp: w'_def\<close>)
  moreover have "unat (m_size l - 1) = length (us @ (b, vb) # vs)"
    using l(9) by (rule size_decr)
  ultimately have o': "owns w' this (us @ (b, vb) # vs)"
    using l bd by (simp add: owns_def chain_split chain_Cons w'_def)
  have "wf w'"
  proof (rule wf_step [OF w _ _ _ _ _ k, where g = "\<lambda>c. us @ (b, vb) # vs"])
    show "lists w' c = None" if "next_obj w' \<le> c" for c
      using that w l by (auto simp: w'_def wf_def)
    show "distinct (free_list w')" "0 \<notin> set (free_list w')" "cells w' 0 = None"
      using dfree w l(3) bd by (auto simp: w'_def wf_def)
    show "cells w' x = None" if "x \<in> set (free_list w')" for x
      using that dfree w l(3) bd by (auto simp: w'_def wf_def)
    show "owns w' c (us @ (b, vb) # vs)" if "c \<in> {this}" for c using that o' by simp
    show "fst ` set (us @ (b, vb) # vs) \<inter> fst ` set ys = {}"
      if "c \<in> {this}" "c' \<notin> {this}" "owns w c' ys" for c c' ys
      using that wf_disjoint [OF w _ o that(3)] by auto
  qed auto
  with run o' k l(1) show ?thesis by (auto simp: w'_def)
qed

subsection \<open>The loops of the constructors, and the destructor\<close>

lemma elem_addr_unat:
  assumes "well_placed values" and "j \<le> length (il_elems values)"
  shows "unat (il_array values + of_nat j * elem_size values)
           = unat (il_array values) + j * unat (elem_size values)"
proof -
  let ?s = "elem_size values"
  from assms have s: "0 < unat ?s" and fit: "unat (il_array values) + j * unat ?s < 2 ^ 64"
    by (auto simp: well_placed_def unat_gt_0 intro: le_less_trans [rotated])
  have "j \<le> j * unat ?s" using s by simp
  with fit have j: "j < 2 ^ 64" by linarith
  then have uj: "unat (of_nat j :: 64 word) = j" by (simp add: unat_of_nat)
  have "unat (of_nat j :: 64 word) * unat ?s < 2 ^ LENGTH(64)" using fit uj by simp
  then have "unat (of_nat j * ?s) = unat (of_nat j :: 64 word) * unat ?s"
    by (rule unat_mult_lem [THEN iffD1])
  with uj have m: "unat (of_nat j * ?s) = j * unat ?s" by simp
  have "unat (il_array values) + unat (of_nat j * ?s) < 2 ^ LENGTH(64)" using fit m by simp
  then have "unat (il_array values + of_nat j * ?s) = unat (il_array values) + unat (of_nat j * ?s)"
    by (rule unat_add_lem [THEN iffD1])
  with m show ?thesis by simp
qed

lemma elem_addr_inj:
  assumes "well_placed values" and "j \<le> length (il_elems values)" and "k \<le> length (il_elems values)"
    and "il_array values + of_nat j * elem_size values = il_array values + of_nat k * elem_size values"
  shows "j = k"
proof -
  from assms(4) have "unat (il_array values + of_nat j * elem_size values)
      = unat (il_array values + of_nat k * elem_size values)" by simp
  then have "j * unat (elem_size values) = k * unat (elem_size values)"
    by (simp add: elem_addr_unat [OF assms(1,2)] elem_addr_unat [OF assms(1,3)])
  moreover from assms(1) have "0 < unat (elem_size values)"
    by (simp add: well_placed_def unat_gt_0)
  ultimately show ?thesis by simp
qed

lemma il_deref_elem:
  assumes "well_placed values" and "j < length (il_elems values)"
  shows "il_deref values (il_array values + of_nat j * elem_size values) = Inr (il_elems values ! j)"
proof -
  let ?P = "\<lambda>k. il_array values + of_nat k * elem_size values
      = il_array values + of_nat j * elem_size values"
  have "List.find ?P [0 ..< length (il_elems values)] = Some j"
    unfolding find_Some_iff
  proof (intro exI [of _ j] conjI allI impI)
    show "j < length [0 ..< length (il_elems values)]" using assms(2) by simp
    show "?P ([0 ..< length (il_elems values)] ! j)" using assms(2) by simp
    show "j = [0 ..< length (il_elems values)] ! j" using assms(2) by simp
    fix i assume "i < j"
    with assms(2) have i: "i \<le> length (il_elems values)" "[0 ..< length (il_elems values)] ! i = i"
      by simp_all
    from assms(2) have j: "j \<le> length (il_elems values)" by simp
    from elem_addr_inj [OF assms(1) i(1) j] \<open>i < j\<close> i(2)
    show "\<not> ?P ([0 ..< length (il_elems values)] ! i)" by auto
  qed
  then show ?thesis by (simp add: il_deref_def)
qed

lemma elem_addr_ge:
  assumes "well_placed values" and "j \<le> length (il_elems values)"
  shows "il_begin values \<le> il_array values + of_nat j * elem_size values"
  by (simp add: word_le_nat_alt il_begin_def elem_addr_unat [OF assms])

lemma before_array_less:
  assumes "well_placed values"
  shows "\<not> il_begin values \<le> il_array values - elem_size values"
proof -
  from assms have le: "elem_size values \<le> il_array values" and s: "0 < unat (elem_size values)"
    by (simp_all add: well_placed_def word_le_nat_alt unat_gt_0)
  from le have "unat (il_array values - elem_size values)
      = unat (il_array values) - unat (elem_size values)" by (rule unat_sub)
  with s le show ?thesis by (simp add: word_le_nat_alt il_begin_def)
qed

lemma elem_addr_Suc:
  "il_array values + of_nat (Suc j) * elem_size values - elem_size values
     = il_array values + of_nat j * elem_size values"
  by (simp add: algebra_simps)

lemma init_loop_spec:
  "wf w \<Longrightarrow> owns w this ys \<Longrightarrow> well_placed values \<Longrightarrow> k \<le> length (il_elems values) \<Longrightarrow>
   k \<le> length (free_list w) \<Longrightarrow>
   \<exists>w'. init_loop this values (il_array values + of_nat k * elem_size values - elem_size values) w
          = Some (Inr w') \<and> wf w' \<and>
        owns w' this (zip (rev (take k (free_list w))) (take k (il_elems values)) @ ys) \<and>
        kept {this} w w' \<and> free_list w' = drop k (free_list w) \<and> next_obj w' = next_obj w \<and>
        (\<forall>c. (lists w' c = None) = (lists w c = None))"
proof (induction k arbitrary: w ys)
  case 0
  then show ?case
    by (subst init_loop.simps) (simp add: before_array_less kept_refl)
next
  case (Suc k)
  let ?it = "il_array values + of_nat k * elem_size values"
  from Suc.prems obtain a fl where f: "free_list w = a # fl" by (cases "free_list w") auto
  from Suc.prems have k: "k < length (il_elems values)" "k \<le> length (il_elems values)" by auto
  from PushFront_spec [OF Suc.prems(1,2) f, of "il_elems values ! k"]
  obtain w1 where w1: "PushFront this (il_elems values ! k) w = Inr w1" "wf w1"
      "owns w1 this ((a, il_elems values ! k) # ys)" "kept {this} w w1" "free_list w1 = fl"
      "next_obj w1 = next_obj w" "\<forall>c. (lists w1 c = None) = (lists w c = None)"
    by blast
  from Suc.prems f w1 have "k \<le> length (free_list w1)" by auto
  from Suc.IH [OF w1(2,3) Suc.prems(3) k(2) this]
  obtain w' where w': "init_loop this values (?it - elem_size values) w1 = Some (Inr w')"
      "wf w'" "owns w' this (zip (rev (take k fl)) (take k (il_elems values))
         @ (a, il_elems values ! k) # ys)"
      "kept {this} w1 w'" "free_list w' = drop k fl" "next_obj w' = next_obj w1"
      "\<forall>c. (lists w' c = None) = (lists w1 c = None)"
    by (auto simp: w1(5))
  have "init_loop this values ?it w = Some (Inr w')"
    using elem_addr_ge [OF Suc.prems(3) k(2)] il_deref_elem [OF Suc.prems(3) k(1)] w1(1) w'(1)
    by (subst init_loop.simps) simp
  then have "init_loop this values
      (il_array values + of_nat (Suc k) * elem_size values - elem_size values) w = Some (Inr w')"
    by (simp only: elem_addr_Suc)
  moreover have "zip (rev (take (Suc k) (a # fl))) (take (Suc k) (il_elems values))
      = zip (rev (take k fl)) (take k (il_elems values)) @ [(a, il_elems values ! k)]"
    using Suc.prems(4,5) f by (simp add: take_Suc_conv_app_nth)
  moreover have "kept {this} w w'" using w1(4) w'(4) by (rule kept_trans)
  ultimately show ?case using w1 w' f by auto
qed

lemma init_list_ctor_spec:
  assumes w: "wf w" and p: "well_placed values"
    and n: "length (il_elems values) \<le> length (free_list w)"
  shows "\<exists>w'. init_list_ctor values w = Some (Inr (next_obj w, w')) \<and> wf w' \<and>
          owns w' (next_obj w)
            (zip (rev (take (length (il_elems values)) (free_list w))) (il_elems values)) \<and>
          kept {next_obj w} w w' \<and>
          free_list w' = drop (length (il_elems values)) (free_list w) \<and>
          next_obj w' = Suc (next_obj w) \<and>
          (\<forall>c. c \<noteq> next_obj w \<longrightarrow> lists w' c = lists w c)"
proof -
  obtain c w0 where d: "default_ctor w = (c, w0)" by (cases "default_ctor w")
  note w0 = default_ctor_spec [OF w d]
  from w0 have wf0: "wf w0" and o0: "owns w0 c []" by blast+
  from w0 n have "length (il_elems values) \<le> length (free_list w0)" by auto
  from init_loop_spec [OF wf0 o0 p le_refl this] w0
  obtain w' where w': "init_loop c values (il_end values - elem_size values) w0 = Some (Inr w')"
      "wf w'"
      "owns w' c (zip (rev (take (length (il_elems values)) (free_list w))) (il_elems values))"
      "kept {c} w0 w'" "free_list w' = drop (length (il_elems values)) (free_list w)"
      "next_obj w' = Suc c"
    by (auto simp: il_end_def)
  have "init_list_ctor values w = Some (Inr (c, w'))"
    using d w'(1) by (simp add: init_list_ctor_def)
  moreover have k: "kept {c} w w'" using w0 w'(4) by (blast intro: kept_trans)
  moreover from k have "\<forall>c'. c' \<noteq> c \<longrightarrow> lists w' c' = lists w c'" by (simp add: kept_def)
  ultimately show ?thesis using w0 w' by auto
qed

lemma push_all_spec:
  "wf w \<Longrightarrow> owns w dst ys \<Longrightarrow> owns w src zs \<Longrightarrow> src \<noteq> dst \<Longrightarrow> set xs \<subseteq> set zs \<Longrightarrow>
   chain (cells w) (it_node cur) xs \<Longrightarrow> it_node stop = Null \<Longrightarrow>
   length xs \<le> length (free_list w) \<Longrightarrow>
   \<exists>w'. push_all dst cur stop w = Some (Inr w') \<and> wf w' \<and>
        owns w' dst (rev (zip (take (length xs) (free_list w)) (map snd xs)) @ ys) \<and>
        kept {dst} w w' \<and> free_list w' = drop (length xs) (free_list w) \<and>
        next_obj w' = next_obj w \<and> (\<forall>c. (lists w' c = None) = (lists w c = None))"
proof (induction xs arbitrary: w ys cur)
  case Nil
  then show ?case
    by (subst push_all.simps) (simp add: operator_ne_it_def kept_refl)
next
  case (Cons x xs)
  obtain b vb where x: "x = (b, vb)" by (cases x)
  from Cons.prems(6) obtain nb where nb: "it_node cur = Cell b" "cells w b = Some nb" "val nb = vb"
      "chain (cells w) (next_node nb) xs"
    by (auto simp: chain_Cons x)
  from Cons.prems obtain a fl where f: "free_list w = a # fl" by (cases "free_list w") auto
  from PushFront_spec [OF Cons.prems(1,2) f, of vb]
  obtain w1 where w1: "PushFront dst vb w = Inr w1" "wf w1"
      "owns w1 dst ((a, vb) # ys)" "kept {dst} w w1" "free_list w1 = fl"
      "next_obj w1 = next_obj w" "\<forall>c. (lists w1 c = None) = (lists w c = None)"
    by blast
  have same: "cells w1 y = cells w y" if "y \<in> fst ` set zs" for y
    using w1(4) Cons.prems(3,4) that unfolding kept_def by blast
  have src: "owns w1 src zs" using w1(4) Cons.prems(3,4) by (auto intro: owns_kept)
  have sub: "set xs \<subseteq> set zs" "b \<in> fst ` set zs" using Cons.prems(5) x by force+
  have b1: "cells w1 b = Some nb" using same sub nb by simp
  define cur' where "cur' = at_node cur (next_node nb)"
  have cur': "it_node cur' = next_node nb" by (cases cur) (simp_all add: cur'_def)
  have "chain (cells w1) (next_node nb) xs = chain (cells w) (next_node nb) xs"
    by (rule chain_agree) (use same sub in auto)
  with nb cur' have ch: "chain (cells w1) (it_node cur') xs" by simp
  from Cons.prems f w1 have len: "length xs \<le> length (free_list w1)" by auto
  from Cons.IH [OF w1(2,3) src Cons.prems(4) sub(1) ch Cons.prems(7) len]
  obtain w' where w': "push_all dst cur' stop w1 = Some (Inr w')" "wf w'"
      "owns w' dst (rev (zip (take (length xs) fl) (map snd xs)) @ (a, vb) # ys)"
      "kept {dst} w1 w'" "free_list w' = drop (length xs) fl" "next_obj w' = next_obj w1"
      "\<forall>c. (lists w' c = None) = (lists w1 c = None)"
    by (auto simp: w1(5))
  have "push_all dst cur stop w = Some (Inr w')"
    using nb b1 w1(1) w'(1) Cons.prems(7)
    by (subst push_all.simps)
      (simp add: operator_ne_it_def operator_star_def read_value_def get_node_def
        pre_increment_def read_next_def cur'_def)
  moreover have "kept {dst} w w'" using w1(4) w'(4) by (rule kept_trans)
  ultimately show ?case using w1 w' f by (auto simp: x)
qed

lemma destructor_spec:
  assumes w: "wf w" and o: "owns w this xs"
  shows "\<exists>w'. destructor this w = Some (Inr w') \<and> wf w' \<and> lists w' this = None \<and>
           kept {this} w w' \<and> free_list w' = rev (map fst xs) @ free_list w \<and>
           next_obj w' = next_obj w \<and> (\<forall>c. c \<noteq> this \<longrightarrow> lists w' c = lists w c)"
proof -
  from Clear_spec [OF w o] obtain w1 where w1: "Clear this w = Some (Inr w1)" "wf w1"
      "owns w1 this []" "kept {this} w w1" "free_list w1 = rev (map fst xs) @ free_list w"
      "next_obj w1 = next_obj w" by blast
  define w' where "w' = w1\<lparr>lists := (lists w1)(this := None)\<rparr>"
  have run: "destructor this w = Some (Inr w')" by (simp add: destructor_def w1(1) w'_def)
  have k1: "kept {this} w1 w'" by (simp add: kept_def w'_def)
  have "wf w'"
  proof (rule wf_step [OF w1(2) _ _ _ _ _ k1, where g = "\<lambda>c. []"])
    show "lists w' c = None" if "next_obj w' \<le> c" for c
      using that w1(2) by (auto simp: w'_def wf_def)
    show "distinct (free_list w')" "0 \<notin> set (free_list w')" "cells w' 0 = None"
      using w1(2) by (auto simp: w'_def wf_def)
    show "cells w' x = None" if "x \<in> set (free_list w')" for x
      using that w1(2) by (auto simp: w'_def wf_def)
    show "owns w' c []" if "c \<in> {this}" "lists w' c \<noteq> None" for c
      using that by (simp add: w'_def)
  qed auto
  moreover have k: "kept {this} w w'" using w1(4) k1 by (rule kept_trans)
  moreover from k have "\<forall>c. c \<noteq> this \<longrightarrow> lists w' c = lists w c" by (simp add: kept_def)
  ultimately show ?thesis using run w1 by (auto simp: w'_def)
qed

subsection \<open>Copying\<close>

lemma owns_chain_first: "owns w c xs \<Longrightarrow> chain (cells w) (first_ptr xs) xs"
  using chain_first [of "cells w" _ xs] by (auto simp: owns_def split: option.splits)

lemma rev_zip_rev: "length as = length bs \<Longrightarrow> rev (zip as (rev bs)) = zip (rev as) bs"
  by (simp add: zip_rev [symmetric])

lemma copy_ctor_spec:
  assumes w: "wf w" and o: "owns w other xs" and room: "2 * length xs \<le> length (free_list w)"
  defines "n \<equiv> next_obj w" and "m \<equiv> length xs" and "fl \<equiv> free_list w"
  shows "\<exists>w'. copy_ctor other w = Some (Inr (n, w')) \<and> wf w' \<and>
           owns w' n (zip (rev (take m (drop m fl))) (map snd xs)) \<and>
           kept {n, Suc n, Suc (Suc n)} w w' \<and>
           lists w' (Suc n) = None \<and> lists w' (Suc (Suc n)) = None \<and>
           next_obj w' = Suc (Suc (Suc n)) \<and>
           free_list w' = take m fl @ drop (2 * m) fl"
proof -
  let ?C = "{n, Suc n, Suc (Suc n)}"
  let ?ys1 = "rev (zip (take m fl) (map snd xs))"
  let ?copy = "zip (rev (take m (drop m fl))) (map snd xs)"
  have lens: "m \<le> length fl" "m \<le> length (drop m fl)" using room by (auto simp: m_def fl_def)
  \<comment> \<open>the new object and the first temporary\<close>
  obtain w0 where d0: "default_ctor w = (n, w0)" by (cases "default_ctor w") (simp add: default_ctor_def n_def)
  note s0 = default_ctor_spec [OF w d0]
  then have w0: "wf w0" "owns w0 n []" "kept {n} w w0" "free_list w0 = fl" "next_obj w0 = Suc n"
    by (auto simp: fl_def)
  obtain w1 where d1: "default_ctor w0 = (Suc n, w1)"
    by (cases "default_ctor w0") (simp add: default_ctor_def w0)
  note s1 = default_ctor_spec [OF w0(1) d1]
  then have w1: "wf w1" "owns w1 (Suc n) []" "kept {Suc n} w0 w1" "free_list w1 = fl"
      "next_obj w1 = Suc (Suc n)"
    by (auto simp: w0)
  have on: "other \<noteq> n" using o s0 by (auto dest: owns_listed)
  then have o0: "owns w0 other xs" using w0(3) o by (auto intro: owns_kept)
  then have on1: "other \<noteq> Suc n" using s1 by (auto dest: owns_listed)
  then have o1: "owns w1 other xs" using w1(3) o0 by (auto intro: owns_kept)
  have n1: "owns w1 n []" using w1(3) w0(2) by (auto intro: owns_kept)
  \<comment> \<open>first loop\<close>
  have "chain (cells w1) (it_node (ConstIterator (first_ptr xs))) xs"
    using owns_chain_first [OF o1] by simp
  from push_all_spec [OF w1(1,2) o1 on1 subset_refl this, of "cend other"] lens
  obtain w2 where w2: "push_all (Suc n) (ConstIterator (first_ptr xs)) (cend other) w1 = Some (Inr w2)"
      "wf w2"
      "owns w2 (Suc n) ?ys1" "kept {Suc n} w1 w2" "free_list w2 = drop m fl"
      "next_obj w2 = Suc (Suc n)"
    by (auto simp: w1 m_def cend_def)
  have n2: "owns w2 n []" using w2(4) n1 by (auto intro: owns_kept)
  \<comment> \<open>second temporary and second loop\<close>
  obtain w3 where d3: "default_ctor w2 = (Suc (Suc n), w3)"
    by (cases "default_ctor w2") (simp add: default_ctor_def w2)
  note s3 = default_ctor_spec [OF w2(2) d3]
  then have w3: "wf w3" "owns w3 (Suc (Suc n)) []" "kept {Suc (Suc n)} w2 w3"
      "free_list w3 = drop m fl" "next_obj w3 = Suc (Suc (Suc n))"
    by (auto simp: w2)
  have n3: "owns w3 n []" using w3(3) n2 by (auto intro: owns_kept)
  have t3: "owns w3 (Suc n) ?ys1" using w3(3) w2(3) by (auto intro: owns_kept)
  have len1: "length ?ys1 = m" using lens by (simp add: m_def)
  have "chain (cells w3) (it_node (Iterator (first_ptr ?ys1))) ?ys1"
    using owns_chain_first [OF t3] by simp
  from push_all_spec [OF w3(1,2) t3 _ subset_refl this, of "end_it (Suc n)"] lens
  obtain w4 where w4: "push_all (Suc (Suc n)) (Iterator (first_ptr ?ys1)) (end_it (Suc n)) w3
        = Some (Inr w4)" "wf w4"
      "owns w4 (Suc (Suc n)) (rev (zip (take m (drop m fl)) (map snd ?ys1)))"
      "kept {Suc (Suc n)} w3 w4" "free_list w4 = drop m (drop m fl)"
      "next_obj w4 = Suc (Suc (Suc n))"
    by (auto simp: w3 len1 end_it_def simp del: length_rev length_zip)
  have "map snd ?ys1 = rev (map snd xs)" using lens by (simp add: rev_map [symmetric] m_def)
  moreover have "rev (zip (take m (drop m fl)) (rev (map snd xs))) = ?copy"
    using lens by (intro rev_zip_rev) (simp add: m_def)
  ultimately have c4: "owns w4 (Suc (Suc n)) ?copy" using w4(3) by simp
  have n4: "owns w4 n []" using w4(4) n3 by (auto intro: owns_kept)
  have t4: "owns w4 (Suc n) ?ys1" using w4(4) t3 by (auto intro: owns_kept)
  \<comment> \<open>swap and the two destructors\<close>
  from swap_member_spec [OF w4(2) n4 c4]
  obtain w5 where w5: "swap_member n (Suc (Suc n)) w4 = Inr w5" "wf w5" "owns w5 n ?copy"
      "owns w5 (Suc (Suc n)) []" "kept {n, Suc (Suc n)} w4 w5" "free_list w5 = free_list w4"
      "next_obj w5 = next_obj w4"
    by blast
  have t5: "owns w5 (Suc n) ?ys1" using w5(5) t4 by (auto intro: owns_kept)
  from destructor_spec [OF w5(2,4)]
  obtain w6 where w6: "destructor (Suc (Suc n)) w5 = Some (Inr w6)" "wf w6"
      "lists w6 (Suc (Suc n)) = None" "kept {Suc (Suc n)} w5 w6" "free_list w6 = free_list w5"
      "next_obj w6 = next_obj w5"
    by auto
  have t6: "owns w6 (Suc n) ?ys1" using w6(4) t5 by (auto intro: owns_kept)
  have c6: "owns w6 n ?copy" using w6(4) w5(3) by (auto intro: owns_kept)
  from destructor_spec [OF w6(2) t6]
  obtain w7 where w7: "destructor (Suc n) w6 = Some (Inr w7)" "wf w7"
      "lists w7 (Suc n) = None" "kept {Suc n} w6 w7"
      "free_list w7 = rev (map fst ?ys1) @ free_list w6"
      "next_obj w7 = next_obj w6" "\<forall>c. c \<noteq> Suc n \<longrightarrow> lists w7 c = lists w6 c"
    by blast
  have c7: "owns w7 n ?copy" using w7(4) c6 by (auto intro: owns_kept)
  have "rev (map fst ?ys1) = take m fl" using lens by (simp add: rev_map [symmetric] m_def)
  then have f7: "free_list w7 = take m fl @ drop (2 * m) fl"
    using w7(5) w6(5) w5(6) w4(5) by (simp add: mult_2)
  have k: "kept ?C w w7"
  proof -
    have "kept ?C w w0" "kept ?C w0 w1" "kept ?C w1 w2" "kept ?C w2 w3" "kept ?C w3 w4"
      "kept ?C w4 w5" "kept ?C w5 w6" "kept ?C w6 w7"
      using w0(3) w1(3) w2(4) w3(3) w4(4) w5(5) w6(4) w7(4) by (auto intro: kept_mono)
    then show ?thesis by (blast intro: kept_trans)
  qed
  \<comment> \<open>the run\<close>
  have l0: "get_list n w0 = Inr \<lparr>head_next_node = Null, m_size = 0\<rparr>"
    using d0 by (auto simp: default_ctor_def get_list_def)
  have "copy_ctor other w = Some (Inr (n, w7))"
    using d0 l0 d1 cbegin_owns [OF o1] w2(1) d3 begin_it_owns [OF t3] w4(1) w5(1) w6(1) w7(1)
    by (simp add: copy_ctor_def)
  with w7 c7 k f7 w6 w5 w4 show ?thesis by auto
qed

lemma copy_assign_self: "copy_assign this this w = Some (Inr w)"
  by (simp add: copy_assign_def)

lemma copy_assign_spec:
  assumes w: "wf w" and ot: "owns w this ys" and o: "owns w rhs xs" and ne: "this \<noteq> rhs"
    and room: "2 * length xs \<le> length (free_list w)"
  defines "n \<equiv> next_obj w" and "m \<equiv> length xs" and "fl \<equiv> free_list w"
  shows "\<exists>w'. copy_assign this rhs w = Some (Inr w') \<and> wf w' \<and>
           owns w' this (zip (rev (take m (drop m fl))) (map snd xs)) \<and>
           kept {this, n, Suc n, Suc (Suc n)} w w' \<and>
           lists w' n = None \<and> lists w' (Suc n) = None \<and> lists w' (Suc (Suc n)) = None \<and>
           next_obj w' = Suc (Suc (Suc n)) \<and>
           free_list w' = rev (map fst ys) @ take m fl @ drop (2 * m) fl"
proof -
  let ?C = "{this, n, Suc n, Suc (Suc n)}"
  let ?copy = "zip (rev (take m (drop m fl))) (map snd xs)"
  from copy_ctor_spec [OF w o room]
  obtain w1 where w1: "copy_ctor rhs w = Some (Inr (n, w1))" "wf w1" "owns w1 n ?copy"
      "kept {n, Suc n, Suc (Suc n)} w w1" "lists w1 (Suc n) = None" "lists w1 (Suc (Suc n)) = None"
      "next_obj w1 = Suc (Suc (Suc n))" "free_list w1 = take m fl @ drop (2 * m) fl"
    by (auto simp: n_def m_def fl_def)
  have "lists w this \<noteq> None" using ot by (rule owns_listed)
  then have "this < n" using w unfolding wf_def n_def by (meson not_le)
  then have t1: "owns w1 this ys" using w1(4) ot by (auto intro: owns_kept)
  from swap_member_spec [OF w1(2) t1 w1(3)]
  obtain w2 where w2: "swap_member this n w1 = Inr w2" "wf w2" "owns w2 this ?copy"
      "owns w2 n ys" "kept {this, n} w1 w2" "free_list w2 = free_list w1"
      "next_obj w2 = next_obj w1" "\<forall>c. (lists w2 c = None) = (lists w1 c = None)"
    by blast
  from destructor_spec [OF w2(2,4)]
  obtain w3 where w3: "destructor n w2 = Some (Inr w3)" "wf w3"
      "lists w3 n = None" "kept {n} w2 w3" "free_list w3 = rev (map fst ys) @ free_list w2"
      "next_obj w3 = next_obj w2" "\<forall>c. c \<noteq> n \<longrightarrow> lists w3 c = lists w2 c"
    by blast
  have t3: "owns w3 this ?copy" using w3(4) w2(3) \<open>this < n\<close> by (auto intro: owns_kept)
  have "kept ?C w w1" "kept ?C w1 w2" "kept ?C w2 w3"
    using w1(4) w2(5) w3(4) by (auto intro: kept_mono)
  then have k: "kept ?C w w3" by (blast intro: kept_trans)
  have "copy_assign this rhs w = Some (Inr w3)"
    using ne w1(1) w2(1) w3(1) by (simp add: copy_assign_def)
  with w3 t3 k w2 w1 show ?thesis by auto
qed

subsection \<open>Iteration and comparison\<close>

lemma collect_spec:
  "chain (cells w) (it_node cur) xs \<Longrightarrow> it_node stop = Null \<Longrightarrow>
   collect out cur stop w = Some (Inr (out @ map snd xs))"
proof (induction xs arbitrary: cur out)
  case Nil
  then show ?case by (subst collect.simps) (simp add: operator_ne_it_def)
next
  case (Cons x xs)
  from Cons.prems(1) obtain n where n: "it_node cur = Cell (fst x)" "cells w (fst x) = Some n"
      "val n = snd x" "chain (cells w) (next_node n) xs"
    by (auto simp: chain_Cons)
  have "it_node (at_node cur (next_node n)) = next_node n" by (cases cur) simp_all
  with n have "chain (cells w) (it_node (at_node cur (next_node n))) xs" by simp
  from Cons.IH [OF this Cons.prems(2), of "out @ [snd x]"] n Cons.prems(2) show ?case
    by (subst collect.simps)
      (simp add: operator_ne_it_def operator_star_def read_value_def get_node_def
        pre_increment_def read_next_def)
qed

lemma iterate_owns: "owns w c xs \<Longrightarrow> iterate c w = Some (Inr (map snd xs))"
  using collect_spec [of w "Iterator (first_ptr xs)" xs "end_it c" "[]"]
  by (simp add: iterate_def begin_it_owns owns_chain_first end_it_def)

lemma GetSize_owns: "owns w c xs \<Longrightarrow> GetSize c w = Inr (of_nat (length xs)) \<and> length xs < 2 ^ 64"
proof -
  assume "owns w c xs"
  then obtain l where l: "lists w c = Some l" "unat (m_size l) = length xs"
    by (auto simp: owns_def split: option.splits)
  then have "of_nat (length xs) = m_size l" using of_nat_unat [of "m_size l", where 'a = "64 word"] by simp
  moreover have "unat (m_size l) < 2 ^ 64" using unsigned_less [of "m_size l", where 'a = nat] by simp
  ultimately show ?thesis using l by (simp add: GetSize_def get_list_def)
qed

lemma IsEmpty_owns: "owns w c xs \<Longrightarrow> IsEmpty c w = Inr (xs = [])"
  by (auto simp: owns_def IsEmpty_def get_list_def unat_eq_0 split: option.splits)

lemma std_equal_spec:
  "chain (cells w) (it_node first1) xs \<Longrightarrow> chain (cells w) (it_node first2) ys \<Longrightarrow>
   it_node last1 = Null \<Longrightarrow> it_node last2 = Null \<Longrightarrow>
   std_equal eq first1 last1 first2 last2 w
     = Some (Inr (list_all2 eq (map snd xs) (map snd ys)))"
proof (induction xs arbitrary: first1 first2 ys)
  case Nil
  then show ?case
    by (subst std_equal.simps, cases ys)
      (auto simp: operator_ne_it_def operator_eq_it_def chain_Cons)
next
  case (Cons x xs)
  from Cons.prems(1) obtain n where n: "it_node first1 = Cell (fst x)" "cells w (fst x) = Some n"
      "val n = snd x" "chain (cells w) (next_node n) xs"
    by (auto simp: chain_Cons)
  show ?case
  proof (cases ys)
    case Nil
    with Cons.prems n show ?thesis
      by (subst std_equal.simps) (auto simp: operator_ne_it_def operator_eq_it_def)
  next
    case (Cons y ys')
    with Cons.prems(2) obtain k where k: "it_node first2 = Cell (fst y)" "cells w (fst y) = Some k"
        "val k = snd y" "chain (cells w) (next_node k) ys'"
      by (auto simp: chain_Cons)
    have "it_node (at_node first1 (next_node n)) = next_node n"
      "it_node (at_node first2 (next_node k)) = next_node k"
      by (cases first1; cases first2; simp)+
    with n k have "chain (cells w) (it_node (at_node first1 (next_node n))) xs"
      "chain (cells w) (it_node (at_node first2 (next_node k))) ys'" by simp_all
    from Cons.IH [OF this Cons.prems(3,4)] n k Cons.prems(3,4) Cons show ?thesis
      by (subst std_equal.simps)
        (simp add: operator_ne_it_def operator_star_def read_value_def get_node_def
          pre_increment_def read_next_def)
  qed
qed

lemma lex_less_spec_Nil [simp]: "lex_less_spec xs [] = False" "lex_less_spec [] (y # ys) = True"
  by (auto simp: lex_less_spec_def)

lemma lex_less_spec_Cons:
  "lex_less_spec (x # xs) (y # ys) = (x < y \<or> (x = y \<and> lex_less_spec xs ys))"
proof
  assume "lex_less_spec (x # xs) (y # ys)"
  then obtain i where i: "i \<le> length (x # xs)" "i \<le> length (y # ys)"
      "take i (x # xs) = take i (y # ys)"
      "i = length (x # xs) \<and> i < length (y # ys) \<or>
       i < length (x # xs) \<and> i < length (y # ys) \<and> (x # xs) ! i < (y # ys) ! i"
    unfolding lex_less_spec_def by blast
  show "x < y \<or> (x = y \<and> lex_less_spec xs ys)"
  proof (cases i)
    case 0
    with i show ?thesis by simp
  next
    case (Suc j)
    with i have "x = y" "j \<le> length xs" "j \<le> length ys" "take j xs = take j ys"
      "j = length xs \<and> j < length ys \<or> j < length xs \<and> j < length ys \<and> xs ! j < ys ! j"
      by auto
    then show ?thesis unfolding lex_less_spec_def by blast
  qed
next
  assume "x < y \<or> (x = y \<and> lex_less_spec xs ys)"
  then show "lex_less_spec (x # xs) (y # ys)"
  proof
    assume "x < y"
    then show ?thesis unfolding lex_less_spec_def by (intro exI [of _ 0]) simp
  next
    assume a: "x = y \<and> lex_less_spec xs ys"
    then obtain j where "j \<le> length xs" "j \<le> length ys" "take j xs = take j ys"
      "j = length xs \<and> j < length ys \<or> j < length xs \<and> j < length ys \<and> xs ! j < ys ! j"
      unfolding lex_less_spec_def by blast
    with a show ?thesis unfolding lex_less_spec_def by (intro exI [of _ "Suc j"]) simp
  qed
qed

lemma lex_less_spec_irrefl: "\<not> lex_less_spec xs xs"
  by (induction xs) (simp_all add: lex_less_spec_Cons)

lemma lex_less_spec_lexord: "lex_less_spec xs ys = ((xs, ys) \<in> lexord {(a, b). a < b})"
proof (induction xs arbitrary: ys)
  case Nil
  then show ?case by (cases ys) simp_all
next
  case (Cons x xs)
  then show ?case by (cases ys) (auto simp: lex_less_spec_Cons)
qed

lemma std_lexicographical_compare_spec:
  "chain (cells w) (it_node first1) xs \<Longrightarrow> chain (cells w) (it_node first2) ys \<Longrightarrow>
   it_node last1 = Null \<Longrightarrow> it_node last2 = Null \<Longrightarrow>
   std_lexicographical_compare first1 last1 first2 last2 w
     = Some (Inr (lex_less_spec (map snd xs) (map snd ys)))"
proof (induction xs arbitrary: first1 first2 ys)
  case Nil
  then show ?case
    by (subst std_lexicographical_compare.simps, cases ys)
      (auto simp: operator_ne_it_def operator_eq_it_def chain_Cons)
next
  case (Cons x xs)
  from Cons.prems(1) obtain n where n: "it_node first1 = Cell (fst x)" "cells w (fst x) = Some n"
      "val n = snd x" "chain (cells w) (next_node n) xs"
    by (auto simp: chain_Cons)
  show ?case
  proof (cases ys)
    case Nil
    with Cons.prems n show ?thesis
      by (subst std_lexicographical_compare.simps) (auto simp: operator_ne_it_def operator_eq_it_def)
  next
    case (Cons y ys')
    with Cons.prems(2) obtain k where k: "it_node first2 = Cell (fst y)" "cells w (fst y) = Some k"
        "val k = snd y" "chain (cells w) (next_node k) ys'"
      by (auto simp: chain_Cons)
    have "it_node (at_node first1 (next_node n)) = next_node n"
      "it_node (at_node first2 (next_node k)) = next_node k"
      by (cases first1; cases first2; simp)+
    with n k have "chain (cells w) (it_node (at_node first1 (next_node n))) xs"
      "chain (cells w) (it_node (at_node first2 (next_node k))) ys'" by simp_all
    from Cons.IH [OF this Cons.prems(3,4)] n k Cons.prems(3,4) Cons show ?thesis
      by (subst std_lexicographical_compare.simps)
        (auto simp: operator_ne_it_def operator_star_def read_value_def get_node_def
          pre_increment_def read_next_def lex_less_spec_Cons)
  qed
qed

lemma operator_eq_owns:
  "owns w lhs xs \<Longrightarrow> owns w rhs ys \<Longrightarrow>
   operator_eq eq lhs rhs w = Some (Inr (list_all2 eq (map snd xs) (map snd ys)))"
  using std_equal_spec [of w "ConstIterator (first_ptr xs)" xs "ConstIterator (first_ptr ys)" ys
      "cend lhs" "cend rhs" eq]
  by (simp add: operator_eq_def cbegin_owns owns_chain_first cend_def)

lemma operator_lt_owns:
  "owns w lhs xs \<Longrightarrow> owns w rhs ys \<Longrightarrow>
   operator_lt lhs rhs w = Some (Inr (lex_less_spec (map snd xs) (map snd ys)))"
  using std_lexicographical_compare_spec [of w "ConstIterator (first_ptr xs)" xs
      "ConstIterator (first_ptr ys)" ys "cend lhs" "cend rhs"]
  by (simp add: operator_lt_def cbegin_owns owns_chain_first cend_def)

subsection \<open>Failures\<close>

lemma PushFront_no_memory: "free_list w = [] \<Longrightarrow> PushFront this v w = Inl BadAlloc"
  by (simp add: PushFront_def allocate_def)

lemma PushFront_Dangling: "lists w this = None \<Longrightarrow> \<exists>e. PushFront this v w = Inl e"
  by (simp add: PushFront_def allocate_def get_list_def split: list.splits)

lemma PopFront_Dangling: "lists w this = None \<Longrightarrow> PopFront this w = Inl Dangling"
  by (simp add: PopFront_def get_list_def)

lemma Clear_Dangling: "lists w this = None \<Longrightarrow> Clear this w = Some (Inl Dangling)"
  by (subst Clear.simps) (simp add: get_list_def)

lemma swap_member_Dangling:
  "lists w this = None \<or> lists w other = None \<Longrightarrow> swap_member this other w = Inl Dangling"
  by (auto simp: swap_member_def get_list_def split: option.splits)

lemma PushFront_effect:
  assumes "wf w" and "PushFront this x w = Inr w'"
  shows "wf w' \<and> kept {this} w w' \<and> next_obj w' = next_obj w \<and> lists w' this \<noteq> None"
proof -
  from assms(2) have "lists w this \<noteq> None" using PushFront_Dangling [of w this x] by auto
  with assms(1) obtain xs where o: "owns w this xs" by (auto dest: wf_owns)
  from assms(2) obtain a fl where f: "free_list w = a # fl"
    using PushFront_no_memory [of w this x] by (cases "free_list w") auto
  from PushFront_spec [OF assms(1) o f, of x] assms(2) \<open>lists w this \<noteq> None\<close> show ?thesis
    by auto
qed

lemma init_loop_completed:
  assumes "init_loop this vals it w = Some r"
  shows "\<forall>w'. r = Inr w' \<longrightarrow> wf w \<longrightarrow>
           wf w' \<and> kept {this} w w' \<and> next_obj w' = next_obj w"
  using assms
proof (induct this vals it w r rule: init_loop.raw_induct [rotated 1, consumes 1])
  case (1 init_loop this vals it w r)
  show ?case
  proof (intro allI impI)
    fix w' assume r: "r = Inr w'" and w: "wf w"
    show "wf w' \<and> kept {this} w w' \<and> next_obj w' = next_obj w"
    proof (cases "il_begin vals \<le> it")
      case False
      with 1(2) r w show ?thesis by (simp add: kept_refl)
    next
      case True
      with 1(2) r obtain x w1 where x: "il_deref vals it = Inr x" "PushFront this x w = Inr w1"
          "init_loop this vals (it - elem_size vals) w1 = Some r"
        by (auto split: sum.splits)
      from PushFront_effect [OF w x(2)]
      have w1: "wf w1" "kept {this} w w1" "next_obj w1 = next_obj w" by simp_all
      from 1(1) [OF x(3)] r w1(1)
      have "wf w'" "kept {this} w1 w'" "next_obj w' = next_obj w1" by simp_all
      with w1 show ?thesis by (auto intro: kept_trans)
    qed
  qed
qed

lemma init_list_ctor_completed:
  assumes w: "wf w" and run: "init_list_ctor values w = Some (Inr (c, w'))"
  shows "wf w' \<and> kept {c} w w' \<and> c = next_obj w"
proof -
  obtain c0 w0 where d: "default_ctor w = (c0, w0)" by (cases "default_ctor w")
  note w0 = default_ctor_spec [OF w d]
  from run d have c: "c = c0"
    and l: "init_loop c0 values (il_end values - elem_size values) w0 = Some (Inr w')"
    by (auto simp: init_list_ctor_def bindP_def split: option.splits sum.splits)
  from w0 have "wf w0" by blast
  with init_loop_completed [OF l] have "wf w'" "kept {c0} w0 w'" by simp_all
  with w0 c show ?thesis by (auto intro: kept_trans)
qed

lemma push_all_no_memory:
  "wf w \<Longrightarrow> owns w dst ys \<Longrightarrow> owns w src zs \<Longrightarrow> src \<noteq> dst \<Longrightarrow> set xs \<subseteq> set zs \<Longrightarrow>
   chain (cells w) (it_node cur) xs \<Longrightarrow> it_node stop = Null \<Longrightarrow>
   length (free_list w) < length xs \<Longrightarrow>
   push_all dst cur stop w = Some (Inl BadAlloc)"
proof (induction xs arbitrary: w ys cur)
  case Nil
  then show ?case by simp
next
  case (Cons x xs)
  obtain b vb where x: "x = (b, vb)" by (cases x)
  from Cons.prems(6) obtain nb where nb: "it_node cur = Cell b" "cells w b = Some nb" "val nb = vb"
      "chain (cells w) (next_node nb) xs"
    by (auto simp: chain_Cons x)
  show ?case
  proof (cases "free_list w")
    case Nil
    then show ?thesis using nb Cons.prems(7)
      by (subst push_all.simps)
        (simp add: operator_ne_it_def operator_star_def read_value_def get_node_def
          PushFront_no_memory)
  next
    case f: (Cons a fl)
    from PushFront_spec [OF Cons.prems(1,2) f, of vb]
    obtain w1 where w1: "PushFront dst vb w = Inr w1" "wf w1"
        "owns w1 dst ((a, vb) # ys)" "kept {dst} w w1" "free_list w1 = fl"
      by blast
    have same: "cells w1 y = cells w y" if "y \<in> fst ` set zs" for y
      using w1(4) Cons.prems(3,4) that unfolding kept_def by blast
    have src: "owns w1 src zs" using w1(4) Cons.prems(3,4) by (auto intro: owns_kept)
    have sub: "set xs \<subseteq> set zs" "b \<in> fst ` set zs" using Cons.prems(5) x by force+
    have b1: "cells w1 b = Some nb" using same sub nb by simp
    define cur' where "cur' = at_node cur (next_node nb)"
    have cur': "it_node cur' = next_node nb" by (cases cur) (simp_all add: cur'_def)
    have "chain (cells w1) (next_node nb) xs = chain (cells w) (next_node nb) xs"
      by (rule chain_agree) (use same sub in auto)
    with nb cur' have ch: "chain (cells w1) (it_node cur') xs" by simp
    from Cons.prems f w1 have len: "length (free_list w1) < length xs" by auto
    from Cons.IH [OF w1(2,3) src Cons.prems(4) sub(1) ch Cons.prems(7) len] show ?thesis
      using nb b1 w1(1) Cons.prems(7)
      by (subst push_all.simps)
        (simp add: operator_ne_it_def operator_star_def read_value_def get_node_def
          pre_increment_def read_next_def cur'_def)
  qed
qed

lemma copy_ctor_no_memory:
  assumes w: "wf w" and o: "owns w other xs" and room: "length (free_list w) < 2 * length xs"
  shows "copy_ctor other w = Some (Inl BadAlloc)"
proof -
  define n where "n = next_obj w"
  define m where "m = length xs"
  define fl where "fl = free_list w"
  let ?ys1 = "rev (zip (take m fl) (map snd xs))"
  obtain w0 where d0: "default_ctor w = (n, w0)" by (cases "default_ctor w") (simp add: default_ctor_def n_def)
  note s0 = default_ctor_spec [OF w d0]
  then have w0: "wf w0" "owns w0 n []" "kept {n} w w0" "free_list w0 = fl" "next_obj w0 = Suc n"
    by (auto simp: fl_def)
  obtain w1 where d1: "default_ctor w0 = (Suc n, w1)"
    by (cases "default_ctor w0") (simp add: default_ctor_def w0)
  note s1 = default_ctor_spec [OF w0(1) d1]
  then have w1: "wf w1" "owns w1 (Suc n) []" "kept {Suc n} w0 w1" "free_list w1 = fl"
      "next_obj w1 = Suc (Suc n)"
    by (auto simp: w0)
  have on: "other \<noteq> n" using o s0 by (auto dest: owns_listed)
  then have o0: "owns w0 other xs" using w0(3) o by (auto intro: owns_kept)
  then have on1: "other \<noteq> Suc n" using s1 by (auto dest: owns_listed)
  then have o1: "owns w1 other xs" using w1(3) o0 by (auto intro: owns_kept)
  have l0: "get_list n w0 = Inr \<lparr>head_next_node = Null, m_size = 0\<rparr>"
    using d0 by (auto simp: default_ctor_def get_list_def)
  have c1: "chain (cells w1) (it_node (ConstIterator (first_ptr xs))) xs"
    using owns_chain_first [OF o1] by simp
  show ?thesis
  proof (cases "length fl < m")
    case True
    then have "length (free_list w1) < length xs" by (simp add: w1 m_def)
    from push_all_no_memory [OF w1(1,2) o1 on1 subset_refl c1 _ this, of "cend other"] show ?thesis
      using d0 l0 d1 cbegin_owns [OF o1] by (simp add: copy_ctor_def cend_def)
  next
    case False
    then have lens: "m \<le> length fl" "length (drop m fl) < m"
      using room by (auto simp: m_def fl_def)
    from push_all_spec [OF w1(1,2) o1 on1 subset_refl c1, of "cend other"] lens
    obtain w2 where w2: "push_all (Suc n) (ConstIterator (first_ptr xs)) (cend other) w1 = Some (Inr w2)"
        "wf w2"
        "owns w2 (Suc n) ?ys1" "kept {Suc n} w1 w2" "free_list w2 = drop m fl"
        "next_obj w2 = Suc (Suc n)"
      by (auto simp: w1 m_def cend_def)
    obtain w3 where d3: "default_ctor w2 = (Suc (Suc n), w3)"
      by (cases "default_ctor w2") (simp add: default_ctor_def w2)
    note s3 = default_ctor_spec [OF w2(2) d3]
    then have w3: "wf w3" "owns w3 (Suc (Suc n)) []" "kept {Suc (Suc n)} w2 w3"
        "free_list w3 = drop m fl" "next_obj w3 = Suc (Suc (Suc n))"
      by (auto simp: w2)
    have t3: "owns w3 (Suc n) ?ys1" using w3(3) w2(3) by (auto intro: owns_kept)
    have len1: "length ?ys1 = m" using lens by (simp add: m_def)
    have c3: "chain (cells w3) (it_node (Iterator (first_ptr ?ys1))) ?ys1"
      using owns_chain_first [OF t3] by simp
    have "length (free_list w3) < length ?ys1" using lens by (simp only: w3 len1)
    from push_all_no_memory [OF w3(1,2) t3 _ subset_refl c3 _ this, of "end_it (Suc n)"] show ?thesis
      using d0 l0 d1 cbegin_owns [OF o1] w2(1) d3 begin_it_owns [OF t3]
      by (simp add: copy_ctor_def end_it_def)
  qed
qed

lemma copy_assign_no_memory:
  assumes w: "wf w" and o: "owns w rhs xs" and ne: "this \<noteq> rhs"
    and room: "length (free_list w) < 2 * length xs"
  shows "copy_assign this rhs w = Some (Inl BadAlloc)"
  using copy_ctor_no_memory [OF w o room] ne by (simp add: copy_assign_def)

subsection \<open>Every operation keeps the invariant\<close>

lemma InsertAfter_no_memory: "free_list w = [] \<Longrightarrow> InsertAfter this pos v w = Inl BadAlloc"
  by (simp add: InsertAfter_def PushFront_no_memory allocate_def)

lemma EraseAfter_empty:
  "owns w this [] \<Longrightarrow> it_node pos = Sentinel this \<Longrightarrow> EraseAfter this pos w = Inr (Iterator Null, w)"
  using begin_it_owns [of w this "[]"]
  by (simp add: EraseAfter_def operator_eq_it_def before_begin_def PopFront_empty first_ptr_def)

lemma in_butlast_split:
  assumes "a \<in> fst ` set (butlast xs)"
  shows "\<exists>us va d vs. xs = us @ (a, va) # d # vs"
proof -
  from assms obtain va where "(a, va) \<in> set (butlast xs)" by auto
  then obtain us vs0 where b: "butlast xs = us @ (a, va) # vs0" by (meson split_list)
  then have "xs \<noteq> []" by auto
  then have "xs = butlast xs @ [last xs]" by simp
  with b have "xs = us @ (a, va) # (vs0 @ [last xs])" by simp
  moreover obtain d vs where "vs0 @ [last xs] = d # vs" by (cases "vs0 @ [last xs]") auto
  ultimately have "xs = us @ (a, va) # d # vs" by simp
  then show ?thesis by blast
qed

lemma perform_effect:
  assumes w: "wf w" and v: "valid_op w opn" and run: "perform opn w = Some (Inr w')"
  shows "wf w' \<and> kept (target opn \<union> {c. next_obj w \<le> c}) w w'"
proof (cases opn)
  case Construct
  obtain c w1 where d: "default_ctor w = (c, w1)" by (cases "default_ctor w")
  from default_ctor_spec [OF w d] d run Construct show ?thesis
    by (auto intro: kept_mono)
next
  case (ConstructFrom vals)
  with run obtain c where "init_list_ctor vals w = Some (Inr (c, w'))"
    by (cases "init_list_ctor vals w") (auto simp: bindP_def split: sum.splits)
  from init_list_ctor_completed [OF w this] ConstructFrom show ?thesis
    by (auto intro: kept_mono)
next
  case (CopyConstruct other)
  with v w obtain xs where o: "owns w other xs" by (auto dest: wf_owns)
  show ?thesis
  proof (cases "2 * length xs \<le> length (free_list w)")
    case True
    from copy_ctor_spec [OF w o True] run CopyConstruct show ?thesis
      by (auto intro: kept_mono)
  next
    case False
    then have "copy_ctor other w = Some (Inl BadAlloc)"
      by (intro copy_ctor_no_memory [OF w o]) simp
    with run CopyConstruct show ?thesis by simp
  qed
next
  case (CopyAssign this rhs)
  with v have "lists w this \<noteq> None" "lists w rhs \<noteq> None" by auto
  then obtain ys xs where o: "owns w this ys" "owns w rhs xs" using wf_owns [OF w] by blast
  show ?thesis
  proof (cases "this = rhs")
    case True
    with run CopyAssign w show ?thesis by (simp add: copy_assign_self kept_refl)
  next
    case ne: False
    show ?thesis
    proof (cases "2 * length xs \<le> length (free_list w)")
      case True
      from copy_assign_spec [OF w o ne True] run CopyAssign show ?thesis
        by (auto intro: kept_mono)
    next
      case False
      then have "copy_assign this rhs w = Some (Inl BadAlloc)"
        by (intro copy_assign_no_memory [OF w o(2) ne]) simp
      with run CopyAssign show ?thesis by simp
    qed
  qed
next
  case (DoPushFront this x)
  with run have r: "PushFront this x w = Inr w'" by simp
  then have "lists w this \<noteq> None" using PushFront_Dangling [of w this x] by auto
  with w obtain xs where o: "owns w this xs" by (auto dest: wf_owns)
  from r obtain a fl where f: "free_list w = a # fl"
    using PushFront_no_memory [of w this x] by (cases "free_list w") auto
  from PushFront_spec [OF w o f, of x] r DoPushFront show ?thesis
    by (auto intro: kept_mono)
next
  case (DoPopFront this)
  with run have r: "PopFront this w = Inr w'" by simp
  then have "lists w this \<noteq> None" using PopFront_Dangling [of w this] by auto
  with w obtain xs where o: "owns w this xs" by (auto dest: wf_owns)
  show ?thesis
  proof (cases xs)
    case Nil
    with o r w show ?thesis by (simp add: PopFront_empty kept_refl)
  next
    case (Cons y ys)
    obtain a x where "y = (a, x)" by (cases y)
    with Cons o PopFront_spec [OF w, of this a x ys] r DoPopFront show ?thesis
      by (auto intro: kept_mono)
  qed
next
  case (DoClear this)
  with run have r: "Clear this w = Some (Inr w')" by simp
  then have "lists w this \<noteq> None" using Clear_Dangling [of w this] by auto
  with w obtain xs where o: "owns w this xs" by (auto dest: wf_owns)
  from Clear_spec [OF w o] r DoClear show ?thesis
    by (auto intro: kept_mono)
next
  case (DoInsertAfter this pos x)
  with run obtain it where r: "InsertAfter this pos x w = Inr (it, w')"
    by (cases "InsertAfter this pos x w") (auto simp: bindE_def)
  from r obtain a fl where f: "free_list w = a # fl"
    using InsertAfter_no_memory [of w this pos x] by (cases "free_list w") auto
  from v DoInsertAfter obtain xs where o: "owns w this xs"
    and p: "it_node pos = Sentinel this \<or> (\<exists>b. it_node pos = Cell b \<and> b \<in> fst ` set xs)"
    by (auto simp: valid_insert_pos_def)
  from p show ?thesis
  proof
    assume "it_node pos = Sentinel this"
    from InsertAfter_before_begin [OF w o f this, of x] r DoInsertAfter show ?thesis
      by (auto intro: kept_mono)
  next
    assume "\<exists>b. it_node pos = Cell b \<and> b \<in> fst ` set xs"
    then obtain b vb where b: "it_node pos = Cell b" "(b, vb) \<in> set xs" by auto
    then obtain us vs where "xs = us @ (b, vb) # vs" by (meson split_list)
    with o InsertAfter_mid [OF w _ f b(1), of this us vb vs x] r DoInsertAfter show ?thesis
      by (auto intro: kept_mono)
  qed
next
  case (DoEraseAfter this pos)
  with run obtain it where r: "EraseAfter this pos w = Inr (it, w')"
    by (cases "EraseAfter this pos w") (auto simp: bindE_def)
  from v DoEraseAfter obtain xs where o: "owns w this xs"
    and p: "it_node pos = Sentinel this \<or> (\<exists>b. it_node pos = Cell b \<and> b \<in> fst ` set (butlast xs))"
    by (auto simp: valid_erase_pos_def)
  from p show ?thesis
  proof
    assume s: "it_node pos = Sentinel this"
    show ?thesis
    proof (cases xs)
      case Nil
      with o s r w show ?thesis by (simp add: EraseAfter_empty kept_refl)
    next
      case (Cons y ys)
      obtain a x where "y = (a, x)" by (cases y)
      with Cons o EraseAfter_before_begin [OF w _ s, of a x ys] r DoEraseAfter show ?thesis
        by (auto intro: kept_mono)
    qed
  next
    assume "\<exists>b. it_node pos = Cell b \<and> b \<in> fst ` set (butlast xs)"
    then obtain b where b: "it_node pos = Cell b" "b \<in> fst ` set (butlast xs)" by auto
    from in_butlast_split [OF b(2)] obtain us vb d vd vs where "xs = us @ (b, vb) # (d, vd) # vs"
      by (metis surj_pair)
    with o EraseAfter_mid [OF w _ b(1), of this us vb d vd vs] r DoEraseAfter show ?thesis
      by (auto intro: kept_mono)
  qed
next
  case (DoSwap this other)
  with run have r: "swap_member this other w = Inr w'" by simp
  then have "lists w this \<noteq> None" "lists w other \<noteq> None"
    using swap_member_Dangling [of w this other] by fastforce+
  then obtain xs ys where o: "owns w this xs" "owns w other ys" using wf_owns [OF w] by blast
  from swap_member_spec [OF w o] r DoSwap show ?thesis
    by (auto intro: kept_mono)
qed

subsection \<open>Reachable stores are well-formed\<close>

lemma wf_init_world: "distinct fl \<Longrightarrow> 0 \<notin> set fl \<Longrightarrow> wf (init_world fl)"
  by (simp add: wf_def init_world_def owns_def)

lemma reachable_wf: "reachable w \<Longrightarrow> wf w"
  by (induction rule: reachable.induct) (auto simp: wf_init_world dest: perform_effect)

section \<open>Evaluation on concrete stores\<close>

lemmas eval_defs = init_world_def default_ctor_def PushFront_def PopFront_def allocate_def
  construct_def get_list_def put_list_def get_node_def read_next_def write_next_def read_value_def
  delete_Node_def InsertAfter_def EraseAfter_def operator_eq_it_def operator_ne_it_def
  before_begin_def cbefore_begin_def begin_it_def cbegin_def end_it_def cend_def init_list_ctor_def
  swap_member_def init_loop.simps il_begin_def il_end_def il_deref_def braced_def

lemma store_10_20_run:
  "perform (ConstructFrom (braced [10, 20])) (init_world [1, 2, 3, 4, 5, 6, 7])
     = Some (Inr store_10_20)"
  by (simp add: eval_defs store_10_20_def)

lemma store_10_20_reachable: "reachable store_10_20"
proof -
  have r: "reachable (init_world [1, 2, 3, 4, 5, 6, 7] :: int world)"
    by (rule reachable.start) simp_all
  show ?thesis by (rule reachable.step [OF r _ store_10_20_run]) simp
qed

lemma store_10_20_wf: "wf store_10_20"
  using store_10_20_reachable by (rule reachable_wf)

lemma store_10_20_owns: "owns store_10_20 0 [(2, 10), (1, 20)]"
  by (simp add: owns_def chain_def store_10_20_def)

lemma store_inserted_run:
  "InsertAfter 0 (Iterator (Cell 2)) 15 store_10_20 = Inr (Iterator (Cell 3), store_inserted)"
  by (simp add: eval_defs store_10_20_def store_inserted_def)

lemma store_inserted_reachable: "reachable store_inserted"
proof (rule reachable.step [OF store_10_20_reachable])
  show "valid_op store_10_20 (DoInsertAfter 0 (Iterator (Cell 2)) 15)"
    using store_10_20_owns by (auto simp: valid_insert_pos_def)
  show "perform (DoInsertAfter 0 (Iterator (Cell 2)) 15) store_10_20 = Some (Inr store_inserted)"
    by (simp add: store_inserted_run)
qed

lemma store_copied_run: "copy_ctor 0 store_10_20 = Some (Inr (Suc 0, store_copied))"
  by (simp add: eval_defs copy_ctor_def push_all.simps Clear.simps destructor_def
      operator_star_def pre_increment_def store_10_20_def store_copied_def)

lemma store_copied_owns: "owns store_copied (Suc 0) [(6, 10), (5, 20)]"
  by (simp add: owns_def chain_def store_copied_def)

lemma store_copy_erased_run:
  "perform (DoEraseAfter (Suc 0) (Iterator (Cell 6))) store_copied = Some (Inr store_copy_erased)"
  by (simp add: eval_defs store_copied_def store_copy_erased_def)

lemma store_empty_run: "perform Construct (init_world [1, 2]) = Some (Inr store_empty)"
  by (simp add: eval_defs store_empty_def)

lemma store_empty_wf: "wf store_empty"
proof -
  have "reachable (init_world [1, 2] :: int world)" by (rule reachable.start) simp_all
  from reachable.step [OF this _ store_empty_run] show ?thesis by (simp add: reachable_wf)
qed

lemma store_empty_owns: "owns store_empty 0 []"
  by (simp add: owns_Nil store_empty_def)

lemma store_three_run:
  "bindP (bindP (perform (ConstructFrom (braced [1, 2, 3])) (init_world [1, 2, 3, 4, 5, 6, 7, 8]))
     (perform (ConstructFrom (braced [1, 2, 4])))) (perform (ConstructFrom (braced [1, 2])))
     = Some (Inr store_three)"
  by (simp add: eval_defs store_three_def)

lemma store_three_owns:
  "owns store_three 0 [(3, 1), (2, 2), (1, 3)]"
  "owns store_three (Suc 0) [(6, 1), (5, 2), (4, 4)]"
  "owns store_three (Suc (Suc 0)) [(8, 1), (7, 2)]"
  by (simp_all add: owns_def chain_def store_three_def)

lemma store_1_2_run:
  "bindP (perform (ConstructFrom (braced [1])) (init_world [1, 2]))
     (perform (ConstructFrom (braced [2]))) = Some (Inr store_1_2)"
  by (simp add: eval_defs store_1_2_def)

lemma store_1_2_owns:
  "owns store_1_2 0 [(1, 1)]" "owns store_1_2 (Suc 0) [(2, 2)]"
  by (simp_all add: owns_def chain_def store_1_2_def)

lemma store_nan_run:
  "bindP (perform Construct (init_world [1, 2, 3, 4, 5])) (perform (DoPushFront 0 NaN))
     = Some (Inr store_nan)"
  by (simp add: eval_defs store_nan_def)

lemma store_nan_reachable: "reachable store_nan"
proof -
  have r: "reachable (init_world [1, 2, 3, 4, 5] :: number world)"
    by (rule reachable.start) simp_all
  have "reachable (snd (default_ctor (init_world [1, 2, 3, 4, 5])) :: number world)"
    by (rule reachable.step [OF r, of Construct]) simp_all
  then show ?thesis
  proof (rule reachable.step [of _ "DoPushFront 0 NaN"])
    show "perform (DoPushFront 0 NaN) (snd (default_ctor (init_world [1, 2, 3, 4, 5])))
        = Some (Inr store_nan)"
      using store_nan_run by simp
  qed simp
qed

lemma store_nan_owns: "owns store_nan 0 [(1, NaN)]"
  by (simp add: owns_def chain_def store_nan_def)

lemma store_nan_copied_run: "copy_ctor 0 store_nan = Some (Inr (Suc 0, store_nan_copied))"
  by (simp add: eval_defs copy_ctor_def push_all.simps Clear.simps destructor_def
      operator_star_def pre_increment_def store_nan_def store_nan_copied_def)

lemma store_nan_copied_owns:
  "owns store_nan_copied 0 [(1, NaN)]" "owns store_nan_copied (Suc 0) [(3, NaN)]"
  by (simp_all add: owns_def chain_def store_nan_copied_def)

section \<open>Properties of the container\<close>

subsection \<open>The element count\<close>

text \<open>
  C1: in every store reached by public operations that completed (\<open>InsertAfter\<close> and
  \<open>EraseAfter\<close> at valid positions), every container's \<open>size_\<close> is the number of nodes of
  the chain that starts at \<open>head_.next_node\<close>, and that chain is a finite list of
  pairwise distinct live nodes that ends in the null pointer.
\<close>

theorem size_matches_chain:
  assumes "reachable w" and "lists w c = Some l"
  shows "\<exists>xs. chain (cells w) (head_next_node l) xs \<and> distinct (map fst xs) \<and>
           unat (m_size l) = length xs"
proof -
  from assms(1) have "wf w" by (rule reachable_wf)
  with assms(2) obtain xs where "owns w c xs" by (auto dest: wf_owns)
  with assms(2) have "chain (cells w) (head_next_node l) xs" "unat (m_size l) = length xs"
    by (auto simp: owns_def)
  moreover from this(1) have "distinct (map fst xs)" by (rule chain_distinct)
  ultimately show ?thesis by blast
qed

theorem size_matches_chain_witness:
  "reachable store_inserted \<and>
   lists store_inserted 0 = Some \<lparr>head_next_node = Cell 2, m_size = 3\<rparr> \<and>
   (\<exists>xs. chain (cells store_inserted) (Cell 2) xs \<and> distinct (map fst xs) \<and>
      unat (3 :: 64 word) = length xs)"
proof -
  have l: "lists store_inserted 0 = Some \<lparr>head_next_node = Cell 2, m_size = 3\<rparr>"
    by (simp add: store_inserted_def)
  from size_matches_chain [OF store_inserted_reachable l] store_inserted_reachable l
  show ?thesis by simp
qed

subsection \<open>Copy construction\<close>

text \<open>
  C2, as the code has it: the copy constructor returns when memory suffices for its two
  passes (and throws \<open>std::bad_alloc\<close> when it does not); whenever it returns, the new
  container \<open>C\<close> holds the values of \<open>L\<close> in the same order in nodes of its own, \<open>L\<close> is as
  it was, and whatever operation is then applied to \<open>C\<close> (at a position valid for \<open>C\<close>)
  leaves the nodes, the values and the size of \<open>L\<close> as they were. \<open>C == L\<close> returns whether
  every element of \<open>L\<close> is equal to itself under \<open>operator==\<close> of the element type, so
  it is true for every \<open>L\<close> exactly when that \<open>==\<close> is reflexive.
\<close>

theorem copy_is_equal_and_independent:
  assumes "wf w" and "owns w L xs"
  shows "(2 * length xs \<le> length (free_list w) \<longrightarrow> (\<exists>C w'. copy_ctor L w = Some (Inr (C, w')))) \<and>
         (length (free_list w) < 2 * length xs \<longrightarrow> copy_ctor L w = Some (Inl BadAlloc)) \<and>
         (\<forall>C w'. copy_ctor L w = Some (Inr (C, w')) \<longrightarrow>
            C \<noteq> L \<and>
            (\<exists>ys. owns w' C ys \<and> map snd ys = map snd xs \<and> fst ` set ys \<inter> fst ` set xs = {}) \<and>
            owns w' L xs \<and> iterate C w' = iterate L w \<and>
            operator_eq eq C L w' = Some (Inr (\<forall>x \<in> set xs. eq (snd x) (snd x))) \<and>
            (\<forall>opn w''. target opn = {C} \<longrightarrow> valid_op w' opn \<longrightarrow>
               perform opn w' = Some (Inr w'') \<longrightarrow>
               owns w'' L xs \<and> iterate L w'' = iterate L w \<and> GetSize L w'' = GetSize L w))"
proof (intro conjI allI impI)
  assume "2 * length xs \<le> length (free_list w)"
  from copy_ctor_spec [OF assms this] show "\<exists>C w'. copy_ctor L w = Some (Inr (C, w'))" by blast
next
  assume "length (free_list w) < 2 * length xs"
  then show "copy_ctor L w = Some (Inl BadAlloc)" by (rule copy_ctor_no_memory [OF assms])
next
  fix C w'
  assume run: "copy_ctor L w = Some (Inr (C, w'))"
  have room: "2 * length xs \<le> length (free_list w)"
  proof (rule ccontr)
    assume "\<not> 2 * length xs \<le> length (free_list w)"
    then have "copy_ctor L w = Some (Inl BadAlloc)"
      by (intro copy_ctor_no_memory [OF assms]) simp
    with run show False by simp
  qed
  define ys where "ys = zip (rev (take (length xs) (drop (length xs) (free_list w)))) (map snd xs)"
  from copy_ctor_spec [OF assms room] run
  have w': "C = next_obj w" "wf w'" "owns w' C ys"
      "kept {C, Suc C, Suc (Suc C)} w w'" "next_obj w' = Suc (Suc (Suc C))"
    by (auto simp: ys_def)
  have "lists w L \<noteq> None" using assms(2) by (rule owns_listed)
  then have L: "L < C" using assms(1) by (auto simp: w'(1) dest: wf_live_below)
  then show "C \<noteq> L" by simp
  show oL: "owns w' L xs" using w'(4) assms(2) L by (auto intro: owns_kept)
  have vals: "map snd ys = map snd xs"
    using room by (simp add: ys_def)
  have dis: "fst ` set ys \<inter> fst ` set xs = {}"
    using L by (intro wf_disjoint [OF w'(2) _ w'(3) oL]) simp
  from w'(3) vals dis
  show "\<exists>ys. owns w' C ys \<and> map snd ys = map snd xs \<and> fst ` set ys \<inter> fst ` set xs = {}"
    by blast
  show "iterate C w' = iterate L w"
    using iterate_owns [OF w'(3)] iterate_owns [OF assms(2)] vals by simp
  show "operator_eq eq C L w' = Some (Inr (\<forall>x \<in> set xs. eq (snd x) (snd x)))"
    using operator_eq_owns [OF w'(3) oL, of eq] vals by (simp add: list_all2_same)
  fix opn w''
  assume op: "target opn = {C}" "valid_op w' opn" "perform opn w' = Some (Inr w'')"
  from perform_effect [OF w'(2) op(2,3)] op(1)
  have "kept ({C} \<union> {c. next_obj w' \<le> c}) w' w''" by simp
  moreover have "L \<notin> {C} \<union> {c. next_obj w' \<le> c}" using L w'(5) by auto
  ultimately show o'': "owns w'' L xs" using oL by (rule owns_kept)
  show "iterate L w'' = iterate L w"
    using iterate_owns [OF o''] iterate_owns [OF assms(2)] by simp
  show "GetSize L w'' = GetSize L w"
    using GetSize_owns [OF o''] GetSize_owns [OF assms(2)] by simp
qed

theorem copy_is_equal_and_independent_witness:
  "wf store_10_20 \<and> owns store_10_20 0 [(2, 10), (1, 20)] \<and>
   2 * length [(2 :: addr, 10 :: int), (1, 20)] \<le> length (free_list store_10_20) \<and>
   copy_ctor 0 store_10_20 = Some (Inr (Suc 0, store_copied)) \<and>
   owns store_copied (Suc 0) [(6, 10), (5, 20)] \<and>
   map snd [(6 :: addr, 10 :: int), (5, 20)] = map snd [(2 :: addr, 10 :: int), (1, 20)] \<and>
   owns store_copied 0 [(2, 10), (1, 20)] \<and>
   iterate (Suc 0) store_copied = iterate 0 store_10_20 \<and>
   operator_eq (=) (Suc 0) 0 store_copied = Some (Inr True) \<and>
   target (DoEraseAfter (Suc 0) (Iterator (Cell 6)) :: int operation) = {Suc 0} \<and>
   valid_op store_copied (DoEraseAfter (Suc 0) (Iterator (Cell 6))) \<and>
   perform (DoEraseAfter (Suc 0) (Iterator (Cell 6))) store_copied = Some (Inr store_copy_erased) \<and>
   owns store_copy_erased 0 [(2, 10), (1, 20)] \<and>
   iterate 0 store_copy_erased = iterate 0 store_10_20 \<and>
   GetSize 0 store_copy_erased = GetSize 0 store_10_20"
proof -
  have room: "2 * length [(2 :: addr, 10 :: int), (1, 20)] \<le> length (free_list store_10_20)"
    by (simp add: store_10_20_def)
  have t: "target (DoEraseAfter (Suc 0) (Iterator (Cell 6)) :: int operation) = {Suc 0}" by simp
  have v: "valid_op store_copied (DoEraseAfter (Suc 0) (Iterator (Cell 6)))"
    using store_copied_owns by (auto simp: valid_erase_pos_def)
  have e: "(\<forall>x \<in> set [(2 :: addr, 10 :: int), (1, 20)]. snd x = snd x) = True" by simp
  note copy_is_equal_and_independent [OF store_10_20_wf store_10_20_owns, of "(=)",
      THEN conjunct2, THEN conjunct2, rule_format, OF store_copied_run, unfolded e]
  then obtain ys where c: "owns store_copied (Suc 0) ys"
      "map snd ys = map snd [(2 :: addr, 10 :: int), (1, 20)]"
      "owns store_copied 0 [(2, 10), (1, 20)]"
      "iterate (Suc 0) store_copied = iterate 0 store_10_20"
      "operator_eq (=) (Suc 0) 0 store_copied = Some (Inr True)"
      "\<And>opn w''. target opn = {Suc 0} \<Longrightarrow> valid_op store_copied opn \<Longrightarrow>
         perform opn store_copied = Some (Inr w'') \<Longrightarrow>
         owns w'' 0 [(2, 10), (1, 20)] \<and> iterate 0 w'' = iterate 0 store_10_20 \<and>
         GetSize 0 w'' = GetSize 0 store_10_20"
    by blast
  from c(1) store_copied_owns have "ys = [(6, 10), (5, 20)]" by (rule owns_fun)
  with c(2) have vals: "map snd [(6 :: addr, 10 :: int), (5, 20)]
      = map snd [(2 :: addr, 10 :: int), (1, 20)]" by simp
  note after = c(6) [OF t v store_copy_erased_run]
  from store_10_20_wf store_10_20_owns room store_copied_run store_copied_owns vals
    c(3-5) t v store_copy_erased_run after
  show ?thesis by (intro conjI) blast+
qed

text \<open>
  C2 as it is stated, for every container, fails where \<open>operator==\<close> of the element type
  is not reflexive: the copy of the list that holds \<open>NaN\<close> has the same value in a node of
  its own, and \<open>C == L\<close> is false.
\<close>

theorem copy_of_nan_is_not_equal:
  "reachable store_nan \<and> owns store_nan 0 [(1, NaN)] \<and>
   copy_ctor 0 store_nan = Some (Inr (Suc 0, store_nan_copied)) \<and>
   iterate 0 store_nan = Some (Inr [NaN]) \<and>
   iterate (Suc 0) store_nan_copied = Some (Inr [NaN]) \<and>
   operator_eq number_eq (Suc 0) 0 store_nan_copied = Some (Inr False)"
  using store_nan_reachable store_nan_owns store_nan_copied_run iterate_owns [OF store_nan_owns]
    iterate_owns [OF store_nan_copied_owns(2)]
    operator_eq_owns [OF store_nan_copied_owns(2,1), of number_eq]
  by simp

subsection \<open>Derived comparisons\<close>

lemma operator_ge_is_operator_le: "operator_ge lhs rhs w = operator_le lhs rhs w"
  by (simp add: operator_ge_def operator_gt_def operator_le_def)

text \<open>
  C3: the derived comparisons are to have their standard meanings, \<open>A >= B\<close> being true
  exactly when \<open>A < B\<close> is not. \<open>operator<=\<close> and \<open>operator>\<close> are written that way, but
  \<open>operator>=\<close> is written as \<open>!(lhs > rhs)\<close>, which is \<open>lhs <= rhs\<close>: for \<open>a{1}\<close> and
  \<open>b{2}\<close>, built by the constructors, both \<open>a < b\<close> and \<open>a >= b\<close> return true.
\<close>

theorem operator_ge_agrees_with_lt:
  "bindP (perform (ConstructFrom (braced [1])) (init_world [1, 2]))
     (perform (ConstructFrom (braced [2]))) = Some (Inr store_1_2) \<and>
   iterate 0 store_1_2 = Some (Inr [1]) \<and> iterate (Suc 0) store_1_2 = Some (Inr [2]) \<and>
   operator_lt 0 (Suc 0) store_1_2 = Some (Inr True) \<and>
   operator_ge 0 (Suc 0) store_1_2 = Some (Inr True)"
  using operator_lt_owns [OF store_1_2_owns(1,2)] operator_lt_owns [OF store_1_2_owns(2,1)]
    iterate_owns [OF store_1_2_owns(1)] iterate_owns [OF store_1_2_owns(2)] store_1_2_run
  by (simp add: operator_ge_def operator_gt_def lex_less_spec_Cons)

subsection \<open>Construction from an initializer list\<close>

text \<open>
  For an initializer list whose array is well placed, the constructor returns when memory
  suffices for the \<open>n\<close> elements; the new container then iterates as \<open>v1, ..., vn\<close>, in this
  order, and its size is \<open>n\<close> (a number that fits \<open>size_t\<close>).
\<close>

lemma init_list_ctor_keeps_order:
  assumes "wf w" and "well_placed values" and "length (il_elems values) \<le> length (free_list w)"
  shows "\<exists>c w'. init_list_ctor values w = Some (Inr (c, w')) \<and> wf w' \<and>
           iterate c w' = Some (Inr (il_elems values)) \<and>
           GetSize c w' = Inr (of_nat (length (il_elems values))) \<and>
           unat (of_nat (length (il_elems values)) :: 64 word) = length (il_elems values) \<and>
           IsEmpty c w' = Inr (il_elems values = [])"
proof -
  let ?vs = "il_elems values"
  let ?xs = "zip (rev (take (length ?vs) (free_list w))) ?vs"
  from init_list_ctor_spec [OF assms]
  obtain w' where w': "init_list_ctor values w = Some (Inr (next_obj w, w'))" "wf w'"
      "owns w' (next_obj w) ?xs"
    by blast
  have len: "length ?xs = length ?vs" "map snd ?xs = ?vs" using assms(3) by simp_all
  from GetSize_owns [OF w'(3)] len
  have sz: "GetSize (next_obj w) w' = Inr (of_nat (length ?vs))" "length ?vs < 2 ^ 64"
    by simp_all
  from sz(2) have "unat (of_nat (length ?vs) :: 64 word) = length ?vs"
    by (simp add: unat_of_nat)
  moreover have "IsEmpty (next_obj w) w' = Inr (?vs = [])"
  proof -
    have "(length ?xs = 0) = (length ?vs = 0)" by (simp only: len(1))
    then have "(?xs = []) = (?vs = [])" by (simp only: length_0_conv)
    with IsEmpty_owns [OF w'(3)] show ?thesis by (simp only:)
  qed
  moreover have "iterate (next_obj w) w' = Some (Inr ?vs)"
    using iterate_owns [OF w'(3)] len by simp
  ultimately show ?thesis using w' sz by blast
qed

text \<open>
  C4: the container built from \<open>{v1, ..., vn}\<close> is to iterate as \<open>v1, ..., vn\<close> and to have
  size \<open>n\<close>, also for \<open>n = 0\<close>. The loop of the constructor starts at \<open>values.end() - 1\<close>,
  which for an empty list is a pointer before \<open>values.begin()\<close>. An empty
  \<open>std::initializer_list\<close> has no array, \<open>begin()\<close> and \<open>end()\<close> are null, so the pointer
  wraps around to the top of the address space, \<open>it >= values.begin()\<close> is true, and
  \<open>*it\<close> reads memory that is no element of the list: in whatever store, the constructor
  does not return an empty container.
\<close>

theorem init_list_ctor_empty_braces:
  "init_list_ctor empty_braces w = Some (Inl OutOfBounds)"
  by (simp add: init_list_ctor_def default_ctor_def init_loop.simps il_begin_def il_end_def
      il_deref_def empty_braces_def)

subsection \<open>Insertion and removal at the front\<close>

text \<open>
  C5: at \<open>before_begin()\<close> (of either flavour), \<open>InsertAfter\<close> leaves the store that
  \<open>PushFront\<close> leaves, or fails as it does, and what it returns is \<open>begin()\<close> of the
  result, an iterator to a node that holds the inserted value; \<open>EraseAfter\<close> leaves the
  store that \<open>PopFront\<close> leaves, and on a non-empty container both succeed and the
  iterator returned is \<open>begin()\<close> of the result.
\<close>

theorem before_begin_is_front:
  assumes "wf w" and "owns w L xs" and "pos = before_begin L \<or> pos = cbefore_begin L"
  shows "map_sum id snd (InsertAfter L pos v w) = PushFront L v w \<and>
         (free_list w \<noteq> [] \<longrightarrow>
            (\<exists>it w' a. InsertAfter L pos v w = Inr (it, w') \<and> begin_it L w' = Inr it \<and>
               operator_star it w' = Inr v \<and> owns w' L ((a, v) # xs))) \<and>
         map_sum id snd (EraseAfter L pos w) = PopFront L w \<and>
         (xs \<noteq> [] \<longrightarrow>
            (\<exists>it w'. EraseAfter L pos w = Inr (it, w') \<and> begin_it L w' = Inr it \<and>
               owns w' L (tl xs)))"
proof -
  from assms(3) have pos: "it_node pos = Sentinel L"
    by (auto simp: before_begin_def cbefore_begin_def)
  have ins: "map_sum id snd (InsertAfter L pos v w) = PushFront L v w"
  proof (cases "free_list w")
    case Nil
    then show ?thesis by (simp add: InsertAfter_no_memory PushFront_no_memory)
  next
    case (Cons a fl)
    from InsertAfter_before_begin [OF assms(1,2) Cons pos, of v] show ?thesis by auto
  qed
  have ins_ok: "\<exists>it w' a. InsertAfter L pos v w = Inr (it, w') \<and> begin_it L w' = Inr it \<and>
      operator_star it w' = Inr v \<and> owns w' L ((a, v) # xs)" if "free_list w \<noteq> []"
  proof -
    from that obtain a fl where f: "free_list w = a # fl" by (cases "free_list w") auto
    from InsertAfter_before_begin [OF assms(1,2) f pos, of v]
    obtain w' where w': "InsertAfter L pos v w = Inr (Iterator (Cell a), w')"
        "owns w' L ((a, v) # xs)" by blast
    from w'(2) have "operator_star (Iterator (Cell a)) w' = Inr v"
      by (auto simp: owns_def chain_Cons operator_star_def read_value_def get_node_def
          split: option.splits)
    with w' begin_it_owns [OF w'(2)] show ?thesis by (auto simp: first_ptr_def)
  qed
  have era: "map_sum id snd (EraseAfter L pos w) = PopFront L w \<and>
      (xs \<noteq> [] \<longrightarrow> (\<exists>it w'. EraseAfter L pos w = Inr (it, w') \<and> begin_it L w' = Inr it \<and>
          owns w' L (tl xs)))"
  proof (cases xs)
    case Nil
    with assms(2) pos show ?thesis by (simp add: EraseAfter_empty PopFront_empty)
  next
    case (Cons y ys)
    obtain a x where "y = (a, x)" by (cases y)
    with Cons assms(2) have "owns w L ((a, x) # ys)" by simp
    from EraseAfter_before_begin [OF assms(1) this pos]
    obtain w' where w': "EraseAfter L pos w = Inr (Iterator (first_ptr ys), w')"
        "PopFront L w = Inr w'" "owns w' L ys" by blast
    with begin_it_owns [OF w'(3)] Cons show ?thesis by auto
  qed
  from ins ins_ok era show ?thesis by blast
qed

theorem before_begin_is_front_witness:
  "wf store_10_20 \<and> owns store_10_20 0 [(2, 10), (1, 20)] \<and>
   (cbefore_begin 0 = before_begin 0 \<or> cbefore_begin 0 = cbefore_begin 0) \<and>
   free_list store_10_20 \<noteq> [] \<and> [(2 :: addr, 10 :: int), (1, 20)] \<noteq> [] \<and>
   map_sum id snd (InsertAfter 0 (cbefore_begin 0) 5 store_10_20) = PushFront 0 5 store_10_20 \<and>
   (\<exists>it w' a. InsertAfter 0 (cbefore_begin 0) 5 store_10_20 = Inr (it, w') \<and>
      begin_it 0 w' = Inr it \<and> operator_star it w' = Inr 5 \<and>
      owns w' 0 ((a, 5) # [(2, 10), (1, 20)])) \<and>
   map_sum id snd (EraseAfter 0 (cbefore_begin 0) store_10_20) = PopFront 0 store_10_20 \<and>
   (\<exists>it w'. EraseAfter 0 (cbefore_begin 0) store_10_20 = Inr (it, w') \<and>
      begin_it 0 w' = Inr it \<and> owns w' 0 (tl [(2, 10), (1, 20)]))"
proof -
  have p: "cbefore_begin 0 = before_begin 0 \<or> cbefore_begin 0 = cbefore_begin 0" by simp
  have f: "free_list store_10_20 \<noteq> []" by (simp add: store_10_20_def)
  have x: "[(2 :: addr, 10 :: int), (1, 20)] \<noteq> []" by simp
  from before_begin_is_front [OF store_10_20_wf store_10_20_owns p, of 5]
    store_10_20_wf store_10_20_owns p f x
  show ?thesis by (intro conjI) blast+
qed

subsection \<open>Equality\<close>

text \<open>
  C6: \<open>A == B\<close> returns whether the two containers have the same number of elements and
  equal values at every position, front to back, and \<open>A != B\<close> returns the opposite; the
  values are compared with \<open>operator==\<close> of the element type, whatever it is.
\<close>

theorem equality_is_elementwise:
  assumes "owns w A xs" and "owns w B ys"
  shows "operator_eq eq A B w =
           Some (Inr (length xs = length ys \<and> (\<forall>i<length xs. eq (snd (xs ! i)) (snd (ys ! i))))) \<and>
         operator_ne eq A B w =
           Some (Inr (\<not> (length xs = length ys \<and> (\<forall>i<length xs. eq (snd (xs ! i)) (snd (ys ! i))))))"
proof -
  have "list_all2 eq (map snd xs) (map snd ys) =
      (length xs = length ys \<and> (\<forall>i<length xs. eq (snd (xs ! i)) (snd (ys ! i))))"
    by (auto simp: list_all2_conv_all_nth)
  with operator_eq_owns [OF assms, of eq] show ?thesis by (simp add: operator_ne_def)
qed

theorem equality_is_elementwise_witness:
  "owns store_three 0 [(3, 1), (2, 2), (1, 3)] \<and>
   owns store_three (Suc 0) [(6, 1), (5, 2), (4, 4)] \<and>
   operator_eq (=) 0 (Suc 0) store_three = Some (Inr False) \<and>
   operator_ne (=) 0 (Suc 0) store_three = Some (Inr True) \<and>
   operator_eq (=) 0 0 store_three = Some (Inr True) \<and>
   operator_ne (=) 0 0 store_three = Some (Inr False)"
proof -
  let ?X = "[(3 :: addr, 1 :: int), (2, 2), (1, 3)]"
  let ?Y = "[(6 :: addr, 1 :: int), (5, 2), (4, 4)]"
  have "snd (?X ! 2) \<noteq> snd (?Y ! 2)" "2 < length ?X" by simp_all
  then have "(length ?X = length ?Y \<and> (\<forall>i<length ?X. snd (?X ! i) = snd (?Y ! i))) = False"
    by blast
  with equality_is_elementwise [OF store_three_owns(1,2), of "(=)"]
  have "operator_eq (=) 0 (Suc 0) store_three = Some (Inr False) \<and>
      operator_ne (=) 0 (Suc 0) store_three = Some (Inr (\<not> False))"
    by (simp only:)
  with equality_is_elementwise [OF store_three_owns(1,1), of "(=)"] store_three_owns(1,2)
  show ?thesis by simp
qed

subsection \<open>Lexicographic order\<close>

text \<open>
  C7: \<open>A < B\<close> returns the lexicographic comparison of the two sequences of values (the
  first position where they differ decides, a strict prefix is less), which is the
  order \<open>lexord\<close> of the library; for equal sequences both \<open>A < B\<close> and \<open>A > B\<close> are false.
\<close>

theorem less_is_lexicographic:
  assumes "owns w A xs" and "owns w B ys"
  shows "operator_lt A B w = Some (Inr (lex_less_spec (map snd xs) (map snd ys))) \<and>
         lex_less_spec (map snd xs) (map snd ys)
           = ((map snd xs, map snd ys) \<in> lexord {(a, b). a < b}) \<and>
         (map snd xs = map snd ys \<longrightarrow>
            operator_lt A B w = Some (Inr False) \<and> operator_gt A B w = Some (Inr False))"
  using operator_lt_owns [OF assms] operator_lt_owns [OF assms(2,1)]
  by (simp add: lex_less_spec_lexord [symmetric] lex_less_spec_irrefl operator_gt_def)

theorem less_is_lexicographic_witness:
  "owns store_three 0 [(3, 1), (2, 2), (1, 3)] \<and>
   owns store_three (Suc 0) [(6, 1), (5, 2), (4, 4)] \<and>
   owns store_three (Suc (Suc 0)) [(8, 1), (7, 2)] \<and>
   operator_lt 0 (Suc 0) store_three = Some (Inr True) \<and>
   operator_lt (Suc (Suc 0)) 0 store_three = Some (Inr True) \<and>
   operator_lt 0 0 store_three = Some (Inr False) \<and>
   operator_gt 0 0 store_three = Some (Inr False)"
  using less_is_lexicographic [OF store_three_owns(1,2)]
    less_is_lexicographic [OF store_three_owns(3,1)]
    less_is_lexicographic [OF store_three_owns(1,1)] store_three_owns
  by (simp add: lex_less_spec_Cons)

subsection \<open>Operations on an empty container\<close>

text \<open>
  C8: on an empty container \<open>PopFront\<close> and \<open>Clear\<close> return without an error and leave
  the store as it is, the size being 0; on any container of a well-formed store \<open>Clear\<close>
  returns, and leaves the container empty (size 0, \<open>begin() == end()\<close>) and the store
  well-formed.
\<close>

theorem pop_and_clear_on_empty:
  "(owns e c [] \<longrightarrow>
      PopFront c e = Inr e \<and> Clear c e = Some (Inr e) \<and> GetSize c e = Inr 0) \<and>
   (wf w \<longrightarrow> owns w d xs \<longrightarrow>
      (\<exists>w'. Clear d w = Some (Inr w') \<and> wf w' \<and> owns w' d [] \<and> GetSize d w' = Inr 0 \<and>
         begin_it d w' = Inr (end_it d) \<and> iterate d w' = Some (Inr [])))"
proof (intro conjI impI)
  assume e: "owns e c []"
  then show "PopFront c e = Inr e" by (rule PopFront_empty)
  from e show "Clear c e = Some (Inr e)"
    by (subst Clear.simps) (auto simp: owns_Nil get_list_def)
  from e show "GetSize c e = Inr 0" using GetSize_owns [OF e] by simp
next
  assume "wf w" "owns w d xs"
  from Clear_spec [OF this] obtain w' where w': "Clear d w = Some (Inr w')" "wf w'" "owns w' d []"
    by blast
  with GetSize_owns [OF w'(3)] begin_it_owns [OF w'(3)] iterate_owns [OF w'(3)]
  show "\<exists>w'. Clear d w = Some (Inr w') \<and> wf w' \<and> owns w' d [] \<and> GetSize d w' = Inr 0 \<and>
         begin_it d w' = Inr (end_it d) \<and> iterate d w' = Some (Inr [])"
    by (simp add: first_ptr_def end_it_def)
qed

theorem pop_and_clear_on_empty_witness:
  "owns store_empty 0 [] \<and> wf store_10_20 \<and> owns store_10_20 0 [(2, 10), (1, 20)] \<and>
   PopFront 0 store_empty = Inr store_empty \<and> Clear 0 store_empty = Some (Inr store_empty) \<and>
   GetSize 0 store_empty = Inr 0 \<and>
   (\<exists>w'. Clear 0 store_10_20 = Some (Inr w') \<and> wf w' \<and> owns w' 0 [] \<and> GetSize 0 w' = Inr 0 \<and>
      begin_it 0 w' = Inr (end_it 0) \<and> iterate 0 w' = Some (Inr []))"
  using pop_and_clear_on_empty [of store_empty 0 store_10_20 0 "[(2, 10), (1, 20)]"]
    store_empty_owns store_10_20_wf store_10_20_owns
  by blast

subsection \<open>Member access through an iterator\<close>

text \<open>
  C9: \<open>operator->\<close> of an iterator of either flavour that holds no node returns the null
  pointer, where \<open>operator*\<close> dereferences the null pointer; on an iterator to an element
  it returns the address of the value of that element.
\<close>

theorem arrow_is_defensive:
  fixes n :: "'a Node"
  shows "(it_node i = Null \<longrightarrow>
            operator_arrow i = NullValue \<and> operator_star i w = Inl NullDeref) \<and>
         (it_node j = Cell a \<longrightarrow> cells w a = Some n \<longrightarrow>
            operator_arrow j = ValueOf (Cell a) \<and>
            read_value_ptr (operator_arrow j) w = Inr (val n) \<and>
            operator_star j w = Inr (val n))"
  by (simp add: operator_arrow_def operator_star_def read_value_def read_value_ptr_def
      get_node_def)

theorem arrow_is_defensive_witness:
  "it_node (end_it 0) = Null \<and> it_node (ConstIterator (Cell 2)) = Cell 2 \<and>
   cells store_10_20 2 = Some \<lparr>val = 10, next_node = Cell 1\<rparr> \<and>
   operator_arrow (end_it 0) = NullValue \<and>
   operator_star (end_it 0) store_10_20 = Inl NullDeref \<and>
   operator_arrow (ConstIterator (Cell 2)) = ValueOf (Cell 2) \<and>
   read_value_ptr (operator_arrow (ConstIterator (Cell 2))) store_10_20 = Inr 10 \<and>
   operator_star (ConstIterator (Cell 2)) store_10_20 = Inr 10"
proof -
  have h: "it_node (end_it 0) = Null" "it_node (ConstIterator (Cell 2)) = Cell 2"
    "cells store_10_20 2 = Some \<lparr>val = 10, next_node = Cell 1\<rparr>"
    by (simp_all add: end_it_def store_10_20_def)
  from arrow_is_defensive [of "end_it 0" store_10_20 "ConstIterator (Cell 2)" 2
      "\<lparr>val = 10, next_node = Cell 1\<rparr>", unfolded Node.select_convs] h
  show ?thesis by blast
qed

subsection \<open>Erasing after before-begin in an empty container\<close>

text \<open>
  C10: on an empty container \<open>EraseAfter(cbefore_begin())\<close> returns without an error,
  whatever the heap and the allocator hold; it leaves the whole store as it is (no node
  is written or freed), the size being 0, and the iterator it returns is \<open>end()\<close>.
\<close>

theorem erase_after_before_begin_on_empty:
  assumes "owns w c []"
  shows "EraseAfter c (cbefore_begin c) w = Inr (end_it c, w) \<and>
         (\<forall>h fl. EraseAfter c (cbefore_begin c) (w\<lparr>cells := h, free_list := fl\<rparr>)
            = Inr (end_it c, w\<lparr>cells := h, free_list := fl\<rparr>)) \<and>
         operator_eq_it (end_it c) (cend c) \<and> GetSize c w = Inr 0 \<and> IsEmpty c w = Inr True"
proof -
  have "owns (w\<lparr>cells := h, free_list := fl\<rparr>) c []" for h fl
    using assms by (simp add: owns_Nil)
  from EraseAfter_empty [OF this, of "cbefore_begin c"]
  have "EraseAfter c (cbefore_begin c) (w\<lparr>cells := h, free_list := fl\<rparr>)
      = Inr (end_it c, w\<lparr>cells := h, free_list := fl\<rparr>)" for h fl
    by (simp add: cbefore_begin_def end_it_def)
  then show ?thesis
    using assms EraseAfter_empty [OF assms, of "cbefore_begin c"] GetSize_owns [OF assms]
      IsEmpty_owns [OF assms]
    by (simp add: cbefore_begin_def end_it_def cend_def operator_eq_it_def)
qed

theorem erase_after_before_begin_on_empty_witness:
  "owns store_empty 0 [] \<and>
   EraseAfter 0 (cbefore_begin 0) store_empty = Inr (end_it 0, store_empty) \<and>
   operator_eq_it (end_it 0) (cend 0) \<and> GetSize 0 store_empty = Inr 0 \<and>
   IsEmpty 0 store_empty = Inr True"
  using erase_after_before_begin_on_empty [OF store_empty_owns] store_empty_owns by simp

end
